theory Spec2Isabelle
  imports Main "HOL-Library.AList"
begin

section \<open>Errors\<close>

text \<open>
  Every exception the modelled code can raise is a value of \<open>error\<close>; a function that can
  raise returns \<open>error + 'a\<close> with \<open>Inl\<close> for the exception.
\<close>

datatype error =
    IndexError
  | KeyError
  | TimeoutError
  | FuturesTimeoutError
  | InvalidDimension
  | MalformedPuzzle
  | OSError
  | OverflowError
  | SolverError

section \<open>The grid (src/model/grid.py)\<close>

text \<open>
  \<open>SudokuGrid\<close> is a frozen dataclass with the single field \<open>_array\<close>, a reference to a
  two-dimensional numpy array of dtype \<open>np.uint\<close>. Arrays are mutable and shared, so they
  live in an explicit heap: a list of arrays, a reference being an index into it. An array
  is the list of its rows; its cells are natural numbers.
\<close>

type_synonym ndarray = "nat list list"

text \<open>
  The largest value of a cell: \<open>np.uint\<close> is the unsigned integer of 64 bits, so a cell
  holds the numbers from 0 to \<open>2 ^ 64 - 1\<close>.
\<close>

definition uint_max :: int where
  "uint_max = 18446744073709551615"

type_synonym heap = "ndarray list"

record SudokuGrid =
  array :: nat

definition grid_array :: "heap \<Rightarrow> SudokuGrid \<Rightarrow> ndarray" where
  "grid_array h g = h ! array g"

text \<open>\<open>size\<close>: \<open>self._array.shape[0]\<close>.\<close>

definition grid_size :: "heap \<Rightarrow> SudokuGrid \<Rightarrow> nat" where
  "grid_size h g = length (grid_array h g)"

text \<open>
  numpy's integer indexing along one axis of length \<open>n\<close>: an index in \<open>[0, n)\<close> is taken as
  it is, an index in \<open>[-n, 0)\<close> counts from the end, anything else raises IndexError.
\<close>

definition norm_index :: "nat \<Rightarrow> int \<Rightarrow> error + nat" where
  "norm_index n i =
     (if 0 \<le> i \<and> i < int n then Inr (nat i)
      else if - int n \<le> i \<and> i < 0 then Inr (nat (i + int n))
      else Inl IndexError)"

text \<open>\<open>__getitem__\<close>: \<open>self._array[coords]\<close> for a pair of integers.\<close>

definition getitem :: "heap \<Rightarrow> SudokuGrid \<Rightarrow> int \<times> int \<Rightarrow> error + nat" where
  "getitem h g coords =
     (let a = grid_array h g in
      case norm_index (length a) (fst coords) of
        Inl e \<Rightarrow> Inl e
      | Inr i \<Rightarrow>
          (case norm_index (length (a ! i)) (snd coords) of
             Inl e \<Rightarrow> Inl e
           | Inr j \<Rightarrow> Inr (a ! i ! j)))"

text \<open>
  \<open>__setitem__\<close>: \<open>self._array[coords] = value\<close> for a pair of integers and a
  non-negative Python integer. numpy first resolves the indices, raising IndexError, and
  then converts the value to the type of the cells, raising OverflowError for a value
  above \<open>uint_max\<close>; in both cases nothing is written. Otherwise the array is updated in
  place: the heap changes at the grid's reference.
\<close>

definition setitem :: "heap \<Rightarrow> SudokuGrid \<Rightarrow> int \<times> int \<Rightarrow> nat \<Rightarrow> error + heap" where
  "setitem h g coords v =
     (let a = grid_array h g in
      case norm_index (length a) (fst coords) of
        Inl e \<Rightarrow> Inl e
      | Inr i \<Rightarrow>
          (case norm_index (length (a ! i)) (snd coords) of
             Inl e \<Rightarrow> Inl e
           | Inr j \<Rightarrow>
               if uint_max < int v then Inl OverflowError
               else Inr (h[array g := a[i := (a ! i)[j := v]]])))"

text \<open>\<open>enumerate\<close>: \<open>np.ndenumerate\<close>, the cells in row-major order with their indices.\<close>

definition nd_enumerate :: "ndarray \<Rightarrow> ((nat \<times> nat) \<times> nat) list" where
  "nd_enumerate a =
     concat (map (\<lambda>r. map (\<lambda>c. ((r, c), a ! r ! c)) [0..<length (a ! r)]) [0..<length a])"

definition grid_enumerate :: "heap \<Rightarrow> SudokuGrid \<Rightarrow> ((nat \<times> nat) \<times> nat) list" where
  "grid_enumerate h g = nd_enumerate (grid_array h g)"

text \<open>
  \<open>copy\<close>: \<open>SudokuGrid(self._array.copy())\<close>. The copied array is allocated at the next
  free reference.
\<close>

definition copy :: "heap \<Rightarrow> SudokuGrid \<Rightarrow> SudokuGrid \<times> heap" where
  "copy h g = (\<lparr>array = length h\<rparr>, h @ [grid_array h g])"

text \<open>
  Modelled from the spec: \<open>block_size\<close>, whose body in grid.py is the placeholder
  \<open>raise NotImplementedError("copy from the previous lab")\<close>. The spec: "blockSize() ->
  int: sqrt(n), fails with InvalidDimension if n is not a perfect square".
\<close>

definition block_size :: "heap \<Rightarrow> SudokuGrid \<Rightarrow> error + nat" where
  "block_size h g =
     (let n = grid_size h g in
      case find (\<lambda>k. k * k = n) [0..<Suc n] of
        None \<Rightarrow> Inl InvalidDimension
      | Some k \<Rightarrow> Inr k)"

text \<open>
  Modelled from the spec: \<open>block_index\<close>, whose body in grid.py is the same placeholder.
  The spec: "Block index for cell (r,c) is (r / k) * k + (c / k), row-major over blocks",
  with \<open>k\<close> the block size.
\<close>

definition block_index :: "heap \<Rightarrow> SudokuGrid \<Rightarrow> nat \<Rightarrow> nat \<Rightarrow> error + nat" where
  "block_index h g cell_row cell_column =
     (case block_size h g of
        Inl e \<Rightarrow> Inl e
      | Inr k \<Rightarrow> Inr ((cell_row div k) * k + cell_column div k))"

text \<open>
  Modelled from the spec: the grids that construction accepts (\<open>__post_init__\<close> is the same
  placeholder in grid.py). The spec: "an n x n array of unsigned integers, n a perfect
  square, where 0 denotes empty and values 1..n denote filled cells".
\<close>

definition valid_array :: "ndarray \<Rightarrow> bool" where
  "valid_array a =
     ((\<exists>k \<in> set [0..<Suc (length a)]. k * k = length a) \<and>
      list_all (\<lambda>row. length row = length a \<and> list_all (\<lambda>v. v \<le> length a) row) a)"

text \<open>
  A grid of the heap: its reference is allocated, construction accepted its array, and the
  array is one that numpy can hold, its side being a machine index (numpy keeps the shape
  in signed 64-bit integers, so the side is below \<open>2 ^ 63\<close>; the bound used here is the
  weaker \<open>uint_max\<close>). So every value from 0 to the side is a value of the cell type.
\<close>

definition valid_grid :: "heap \<Rightarrow> SudokuGrid \<Rightarrow> bool" where
  "valid_grid h g =
     (array g < length h \<and> valid_array (grid_array h g) \<and> int (grid_size h g) \<le> uint_max)"

section \<open>Propositions and the CNF encoding (src/solvers/sat_solver.py)\<close>

record Coordinates =
  row :: nat
  col :: nat
  block :: nat

record Proposition =
  coords :: Coordinates
  val :: nat
  prop_id :: int

text \<open>
  \<open>SudokuCNF\<close>: \<open>cnf\<close> is the list of clauses of the pysat formula, \<open>propositions\<close> the
  dictionary from identifiers to propositions (an association list in insertion order, as
  a Python dict iterates), \<open>puzzle\<close> the encoded grid.
\<close>

record SudokuCNF =
  cnf :: "int list list"
  propositions :: "(int \<times> Proposition) list"
  puzzle :: SudokuGrid

text \<open>\<open>itertools.combinations(props, 2)\<close>: the pairs of positions \<open>i < j\<close>, in order.\<close>

fun combinations2 :: "'a list \<Rightarrow> ('a \<times> 'a) list" where
  "combinations2 [] = []"
| "combinations2 (x # xs) = map (Pair x) xs @ combinations2 xs"

definition cnf_append :: "SudokuCNF \<Rightarrow> int list \<Rightarrow> SudokuCNF" where
  "cnf_append self clause = self\<lparr>cnf := cnf self @ [clause]\<rparr>"

definition at_least_one :: "SudokuCNF \<Rightarrow> Proposition list \<Rightarrow> SudokuCNF" where
  "at_least_one self props =
     (let clause = map prop_id props in
      if clause \<noteq> [] then cnf_append self clause else self)"

definition at_most_one :: "SudokuCNF \<Rightarrow> Proposition list \<Rightarrow> SudokuCNF" where
  "at_most_one self props =
     fold (\<lambda>(p, q) s. cnf_append s [- prop_id p, - prop_id q]) (combinations2 props) self"

definition exactly_one :: "SudokuCNF \<Rightarrow> Proposition list \<Rightarrow> SudokuCNF" where
  "exactly_one self props =
     (if props = [] then self else at_most_one (at_least_one self props) props)"

text \<open>
  Modelled from the spec: \<open>group_by\<close> of src/utils/group_by.py, a file that is not among
  the sources. The spec: "an explicit mapping construction step building key -> ordered
  list of proposition references", "grouping must be stable". The result is a dictionary:
  the keys in the order of their first occurrence, each with its elements in the order
  of the input.
\<close>

definition group_by :: "'a list \<Rightarrow> ('a \<Rightarrow> 'k) \<Rightarrow> ('k \<times> 'a list) list" where
  "group_by xs key =
     map (\<lambda>k. (k, filter (\<lambda>x. key x = k) xs)) (rev (remdups (rev (map key xs))))"

text \<open>\<open>d.values()\<close> of a dictionary.\<close>

definition dict_values :: "('k \<times> 'v) list \<Rightarrow> 'v list" where
  "dict_values d = map snd d"

definition every_cell_has_a_single_value :: "SudokuCNF \<Rightarrow> SudokuCNF" where
  "every_cell_has_a_single_value self =
     fold (\<lambda>cell_propositions s. exactly_one s cell_propositions)
       (dict_values (group_by (dict_values (propositions self)) coords)) self"

definition every_row_contains_unique_values :: "SudokuCNF \<Rightarrow> SudokuCNF" where
  "every_row_contains_unique_values self =
     fold (\<lambda>props s. at_most_one s props)
       (dict_values (group_by (dict_values (propositions self)) (\<lambda>p. (row (coords p), val p))))
       self"

definition every_col_contains_unique_values :: "SudokuCNF \<Rightarrow> SudokuCNF" where
  "every_col_contains_unique_values self =
     fold (\<lambda>props s. at_most_one s props)
       (dict_values (group_by (dict_values (propositions self)) (\<lambda>p. (col (coords p), val p))))
       self"

definition every_block_contains_unique_values :: "SudokuCNF \<Rightarrow> SudokuCNF" where
  "every_block_contains_unique_values self =
     fold (\<lambda>props s. at_most_one s props)
       (dict_values (group_by (dict_values (propositions self)) (\<lambda>p. (block (coords p), val p))))
       self"

text \<open>\<open>__post_init__\<close>: the four families, in this order.\<close>

definition post_init :: "SudokuCNF \<Rightarrow> SudokuCNF" where
  "post_init self =
     every_block_contains_unique_values
       (every_col_contains_unique_values
         (every_row_contains_unique_values
           (every_cell_has_a_single_value self)))"

subsection \<open>The proposition space\<close>

text \<open>
  The three lists of sets \<open>row_used\<close>, \<open>col_used\<close>, \<open>block_used\<close> of
  \<open>_possible_propositions\<close>.
\<close>

type_synonym used = "nat set list \<times> nat set list \<times> nat set list"

text \<open>
  The first loop: every non-empty cell adds its value to the sets of its row, column and
  block. Indexing a list out of range raises IndexError, and \<open>block_index\<close> can raise.
\<close>

fun mark_used ::
  "(nat \<Rightarrow> nat \<Rightarrow> error + nat) \<Rightarrow> ((nat \<times> nat) \<times> nat) list \<Rightarrow> used \<Rightarrow> error + used" where
  "mark_used bi [] u = Inr u"
| "mark_used bi (((r, c), v) # cells) (row_used, col_used, block_used) =
     (if v \<noteq> 0 then
        (case bi r c of
           Inl e \<Rightarrow> Inl e
         | Inr b \<Rightarrow>
             if r < length row_used \<and> c < length col_used \<and> b < length block_used then
               mark_used bi cells
                 (row_used[r := insert v (row_used ! r)],
                  col_used[c := insert v (col_used ! c)],
                  block_used[b := insert v (block_used ! b)])
             else Inl IndexError)
      else mark_used bi cells (row_used, col_used, block_used))"

text \<open>
  The inner loop of the second loop: one proposition per allowed value, in ascending
  order, each under the next identifier. \<open>propositions[next_id] = ...\<close> is the dictionary
  update.
\<close>

definition add_props ::
  "nat \<Rightarrow> nat \<Rightarrow> nat \<Rightarrow> nat list \<Rightarrow> (int \<times> Proposition) list \<times> int \<Rightarrow>
   (int \<times> Proposition) list \<times> int" where
  "add_props r c b vs st =
     fold (\<lambda>v (props, next_id).
            (AList.update next_id
               \<lparr>coords = \<lparr>row = r, col = c, block = b\<rparr>, val = v, prop_id = next_id\<rparr> props,
             next_id + 1))
       vs st"

text \<open>The second loop: the empty cells, in row-major order.\<close>

fun gen_props ::
  "(nat \<Rightarrow> nat \<Rightarrow> error + nat) \<Rightarrow> nat \<Rightarrow> used \<Rightarrow> ((nat \<times> nat) \<times> nat) list \<Rightarrow>
   (int \<times> Proposition) list \<times> int \<Rightarrow> error + (int \<times> Proposition) list \<times> int" where
  "gen_props bi n u [] st = Inr st"
| "gen_props bi n (row_used, col_used, block_used) (((r, c), v) # cells) st =
     (if v \<noteq> 0 then gen_props bi n (row_used, col_used, block_used) cells st
      else
        (case bi r c of
           Inl e \<Rightarrow> Inl e
         | Inr b \<Rightarrow>
             if r < length row_used \<and> c < length col_used \<and> b < length block_used then
               (let allowed = {1..n} - row_used ! r - col_used ! c - block_used ! b in
                gen_props bi n (row_used, col_used, block_used) cells
                  (add_props r c b (sorted_list_of_set allowed) st))
             else Inl IndexError))"

definition possible_propositions :: "heap \<Rightarrow> SudokuGrid \<Rightarrow> error + (int \<times> Proposition) list" where
  "possible_propositions h p =
     (let n = grid_size h p;
          empty_sets = replicate n {} in
      case mark_used (block_index h p) (grid_enumerate h p)
             (empty_sets, empty_sets, empty_sets) of
        Inl e \<Rightarrow> Inl e
      | Inr u \<Rightarrow>
          (case gen_props (block_index h p) n u (grid_enumerate h p) ([], 1) of
             Inl e \<Rightarrow> Inl e
           | Inr (props, next_id) \<Rightarrow> Inr props))"

definition encode :: "heap \<Rightarrow> SudokuGrid \<Rightarrow> error + SudokuCNF" where
  "encode h p =
     (case possible_propositions h p of
        Inl e \<Rightarrow> Inl e
      | Inr props \<Rightarrow> Inr (post_init \<lparr>cnf = [], propositions = props, puzzle = p\<rparr>))"

subsection \<open>Decoding\<close>

text \<open>
  The loop of \<open>decode\<close> over the result list: a positive identifier that is a key of the
  dictionary writes its value at its coordinates of \<open>grid\<close>; everything else is skipped.
  \<open>pid in self.propositions\<close> is the test on the keys, \<open>self.propositions[pid]\<close> the
  lookup, which raises KeyError for a missing key.
\<close>

fun decode_loop ::
  "(int \<times> Proposition) list \<Rightarrow> SudokuGrid \<Rightarrow> int list \<Rightarrow> heap \<Rightarrow> error + heap" where
  "decode_loop props grid [] h = Inr h"
| "decode_loop props grid (pid # results) h =
     (if pid > 0 \<and> pid \<in> fst ` set props then
        (case map_of props pid of
           None \<Rightarrow> Inl KeyError
         | Some prop \<Rightarrow>
             (case setitem h grid (int (row (coords prop)), int (col (coords prop))) (val prop) of
                Inl e \<Rightarrow> Inl e
              | Inr h' \<Rightarrow> decode_loop props grid results h'))
      else decode_loop props grid results h)"

definition decode :: "heap \<Rightarrow> SudokuCNF \<Rightarrow> int list \<Rightarrow> error + SudokuGrid \<times> heap" where
  "decode h self results =
     (let (grid, h1) = copy h (puzzle self) in
      case decode_loop (propositions self) grid results h1 of
        Inl e \<Rightarrow> Inl e
      | Inr h2 \<Rightarrow> Inr (grid, h2))"

subsection \<open>The solver\<close>

text \<open>
  The SAT engine (pysat's \<open>Solver\<close>) and the timer that interrupts it are outside the
  program. An engine is a function from the formula and the time limit to the status that
  \<open>solve_limited\<close> returns (\<open>None\<close>: interrupted, \<open>Some False\<close>: unsatisfiable,
  \<open>Some True\<close>: satisfiable) and the model that \<open>get_model\<close> returns.
\<close>

type_synonym 't engine = "int list list \<Rightarrow> 't \<Rightarrow> bool option \<times> int list"

definition run_algorithm ::
  "'t engine \<Rightarrow> heap \<Rightarrow> SudokuGrid \<Rightarrow> 't \<Rightarrow> error + SudokuGrid option \<times> heap" where
  "run_algorithm solver h p time_limit =
     (case encode h p of
        Inl e \<Rightarrow> Inl e
      | Inr sudoku_cnf \<Rightarrow>
          (let (status, model) = solver (cnf sudoku_cnf) time_limit in
           case status of
             None \<Rightarrow> Inl TimeoutError
           | Some False \<Rightarrow> Inr (None, h)
           | Some True \<Rightarrow>
               (case decode h sudoku_cnf model of
                  Inl e \<Rightarrow> Inl e
                | Inr (g, h') \<Rightarrow> Inr (Some g, h'))))"

section \<open>Clause lists\<close>

text \<open>
  The clauses that the three primitives stand for, as lists: the single disjunction of
  the identifiers, the negated pairs, and both.
\<close>

definition at_least_one_clauses :: "Proposition list \<Rightarrow> int list list" where
  "at_least_one_clauses ps = (if ps = [] then [] else [map prop_id ps])"

definition at_most_one_clauses :: "Proposition list \<Rightarrow> int list list" where
  "at_most_one_clauses ps = map (\<lambda>(p, q). [- prop_id p, - prop_id q]) (combinations2 ps)"

definition exactly_one_clauses :: "Proposition list \<Rightarrow> int list list" where
  "exactly_one_clauses ps =
     (if ps = [] then [] else at_least_one_clauses ps @ at_most_one_clauses ps)"

text \<open>
  The clauses of the four constraint families over a list of propositions: exactly one
  value per cell, and each value at most once per row, per column and per block.
\<close>

definition cell_clauses :: "Proposition list \<Rightarrow> int list list" where
  "cell_clauses ps = concat (map exactly_one_clauses (dict_values (group_by ps coords)))"

definition row_clauses :: "Proposition list \<Rightarrow> int list list" where
  "row_clauses ps =
     concat (map at_most_one_clauses
       (dict_values (group_by ps (\<lambda>p. (row (coords p), val p)))))"

definition col_clauses :: "Proposition list \<Rightarrow> int list list" where
  "col_clauses ps =
     concat (map at_most_one_clauses
       (dict_values (group_by ps (\<lambda>p. (col (coords p), val p)))))"

definition block_clauses :: "Proposition list \<Rightarrow> int list list" where
  "block_clauses ps =
     concat (map at_most_one_clauses
       (dict_values (group_by ps (\<lambda>p. (block (coords p), val p)))))"

section \<open>The command line (main.py)\<close>

text \<open>\<open>str(int(x))\<close> for a cell of the array: the decimal digits.\<close>

definition digit_char :: "nat \<Rightarrow> char" where
  "digit_char d = char_of (48 + d)"

function str_nat :: "nat \<Rightarrow> string" where
  "str_nat n = (if n < 10 then [digit_char n] else str_nat (n div 10) @ [digit_char (n mod 10)])"
  by pat_completeness auto
termination
  by (relation "measure id") auto

declare str_nat.simps [simp del]

text \<open>\<open>sep.join(parts)\<close>.\<close>

fun join :: "string \<Rightarrow> string list \<Rightarrow> string" where
  "join sep [] = []"
| "join sep [x] = x"
| "join sep (x # y # ys) = x @ sep @ join sep (y # ys)"

text \<open>
  The line that \<open>main\<close> prints for a row of the puzzle:
  \<open>",".join(str(int(x)) for x in row)\<close>.
\<close>

definition plain_line :: "nat list \<Rightarrow> string" where
  "plain_line values = join '','' (map str_nat values)"

text \<open>
  \<open>parse_args\<close> hands the command line to argparse, which ends the process itself in two
  cases: after \<open>-h\<close> or \<open>--help\<close> it prints the help text and exits with status 0, and
  after a usage error (no puzzle path, an unknown option, an algorithm that is not among
  the choices, a time limit that is not a number) it prints the usage and exits with
  status 2. Otherwise it returns the namespace of the three arguments.
\<close>

record ('alg, 't) args =
  puzzle_path :: string
  algorithm :: 'alg
  time_limit :: 't

datatype 'a parse_result =
    Help
  | UsageError
  | Namespace 'a

text \<open>
  \<open>main\<close>. What lies outside the program is a parameter: \<open>parsed\<close> is the outcome of
  \<open>parse_args()\<close>, \<open>open_read\<close> opens and reads the file at a path, \<open>lines_of\<close> stands for
  \<open>strip().splitlines()\<close>, \<open>from_text\<close> for \<open>SudokuGrid.from_text\<close>, \<open>solve\<close> for
  \<open>args.algorithm.solve(puzzle, args.time_limit)\<close> and \<open>str\<close> for the grid's \<open>__str__\<close>,
  which \<open>print(solution)\<close> calls before it writes anything. Each of them can raise. The
  third \<open>try\<close> statement is the inner \<open>case\<close>: an exception raised in its body, by \<open>solve\<close>
  or by \<open>str\<close>, goes to its handlers, while the \<open>SystemExit\<close> of \<open>sys.exit\<close> is not an
  \<open>Exception\<close> and passes through them. The result is the lines printed on standard output
  (without the text of a caught exception and without argparse's own messages) and the
  exit status of the process.
\<close>

definition main ::
  "('alg, 't) args parse_result \<Rightarrow> (string \<Rightarrow> error + string) \<Rightarrow> (string \<Rightarrow> string list) \<Rightarrow>
   (string list \<Rightarrow> error + ndarray) \<Rightarrow> ('alg \<Rightarrow> ndarray \<Rightarrow> 't \<Rightarrow> error + ndarray option) \<Rightarrow>
   (ndarray \<Rightarrow> error + string list) \<Rightarrow> string list \<times> int" where
  "main parsed open_read lines_of from_text solve str =
     (case parsed of
        Help \<Rightarrow> ([], 0)
      | UsageError \<Rightarrow> ([], 2)
      | Namespace args \<Rightarrow>
          (case open_read (puzzle_path args) of
             Inl e \<Rightarrow> ([''Error reading puzzle file: ''], 1)
           | Inr puzzle_data \<Rightarrow>
               (case from_text (lines_of puzzle_data) of
                  Inl e \<Rightarrow> ([''Invalid puzzle format: ''], 1)
                | Inr p \<Rightarrow>
                    (case
                       (case solve (algorithm args) p (time_limit args) of
                          Inl e \<Rightarrow> Inl e
                        | Inr (Some solution) \<Rightarrow>
                            (case str solution of
                               Inl e \<Rightarrow> Inl e
                             | Inr printed \<Rightarrow> Inr (printed, 0))
                        | Inr None \<Rightarrow>
                            Inr ([''INFEASIBLE'', ''    - puzzle grid:'']
                                   @ map plain_line p, 1))
                     of
                       Inr out \<Rightarrow> out
                     | Inl e \<Rightarrow>
                         if e = TimeoutError \<or> e = FuturesTimeoutError then ([''TIMEOUT''], 2)
                         else ([''Solver error: ''], 1)))))"

section \<open>The text formats of the grid (src/model/grid.py)\<close>

text \<open>
  Modelled from the spec: the parts of \<open>from_text\<close>, whose body in grid.py is the
  placeholder \<open>raise NotImplementedError("copy from the previous lab")\<close>. The spec: "each
  line is a comma-separated row of non-negative integers", with "no whitespace
  requirements beyond comma separation". \<open>split_comma\<close> splits a line at its commas,
  \<open>strip\<close> drops the blanks around a field, \<open>parse_nat\<close> reads a field that is, blanks
  apart, a non-empty string of decimal digits, and \<open>parse_fields\<close> and \<open>parse_rows\<close>
  read a row and all rows, failing when a field is not such a number.
\<close>

fun split_comma :: "string \<Rightarrow> string list" where
  "split_comma [] = [[]]"
| "split_comma (c # cs) =
     (if c = CHR '','' then [] # split_comma cs
      else (case split_comma cs of [] \<Rightarrow> [[c]] | w # ws \<Rightarrow> (c # w) # ws))"

definition is_digit :: "char \<Rightarrow> bool" where
  "is_digit c = (48 \<le> (of_char c :: nat) \<and> (of_char c :: nat) \<le> 57)"

definition is_space :: "char \<Rightarrow> bool" where
  "is_space c = (c = CHR '' '')"

definition strip :: "string \<Rightarrow> string" where
  "strip s = rev (dropWhile is_space (rev (dropWhile is_space s)))"

definition parse_nat :: "string \<Rightarrow> nat option" where
  "parse_nat s =
     (let w = strip s in
      if w \<noteq> [] \<and> list_all is_digit w
      then Some (foldl (\<lambda>acc c. 10 * acc + (of_char c - 48)) 0 w) else None)"

fun parse_fields :: "string list \<Rightarrow> nat list option" where
  "parse_fields [] = Some []"
| "parse_fields (w # ws) =
     (case parse_nat w of
        None \<Rightarrow> None
      | Some v \<Rightarrow> (case parse_fields ws of None \<Rightarrow> None | Some vs \<Rightarrow> Some (v # vs)))"

fun parse_rows :: "string list \<Rightarrow> nat list list option" where
  "parse_rows [] = Some []"
| "parse_rows (l # ls) =
     (case parse_fields (split_comma l) of
        None \<Rightarrow> None
      | Some r \<Rightarrow> (case parse_rows ls of None \<Rightarrow> None | Some rs \<Rightarrow> Some (r # rs)))"

text \<open>
  Modelled from the spec: \<open>from_text\<close> (the spec's \<open>parse\<close>), the same placeholder in
  grid.py. The spec: "parse(lines) -> Grid: each line is a comma-separated row of
  non-negative integers; fails with MalformedPuzzle if row lengths are unequal, any value
  is out of [0, n], or n is not a perfect square"; "n lines, each n comma-separated
  integers in [0, n] ... No header". The result is the array of the new grid.
\<close>

definition from_text :: "string list \<Rightarrow> error + ndarray" where
  "from_text lines =
     (case parse_rows lines of
        None \<Rightarrow> Inl MalformedPuzzle
      | Some rows \<Rightarrow> if valid_array rows then Inr rows else Inl MalformedPuzzle)"





section \<open>Specification vocabulary\<close>

text \<open>
  The position along an axis of length \<open>n\<close> that numpy gives an index \<open>i\<close> of
  \<open>[-n, n)\<close>.
\<close>

definition wrap :: "nat \<Rightarrow> int \<Rightarrow> nat" where
  "wrap n i = (if 0 \<le> i then nat i else nat (i + int n))"

text \<open>The block index of the cell \<open>(r, c)\<close> for block size \<open>k\<close>.\<close>

definition blk :: "nat \<Rightarrow> nat \<Rightarrow> nat \<Rightarrow> nat" where
  "blk k r c = (r div k) * k + c div k"

text \<open>The non-zero values placed in a row, in a column and in a block of an array.\<close>

definition row_vals :: "ndarray \<Rightarrow> nat \<Rightarrow> nat set" where
  "row_vals a r = set (map snd (filter (\<lambda>((r', c'), v). r' = r) (nd_enumerate a))) - {0}"

definition col_vals :: "ndarray \<Rightarrow> nat \<Rightarrow> nat set" where
  "col_vals a c = set (map snd (filter (\<lambda>((r', c'), v). c' = c) (nd_enumerate a))) - {0}"

definition block_vals :: "ndarray \<Rightarrow> nat \<Rightarrow> nat \<Rightarrow> nat set" where
  "block_vals a k b =
     set (map snd (filter (\<lambda>((r', c'), v). blk k r' c' = b) (nd_enumerate a))) - {0}"

text \<open>
  The candidate values of the cell \<open>(r, c)\<close>, ascending: the values of \<open>1..n\<close> that are
  placed neither in its row, nor in its column, nor in its block.
\<close>

definition candidates :: "ndarray \<Rightarrow> nat \<Rightarrow> nat \<Rightarrow> nat \<Rightarrow> nat list" where
  "candidates a k r c =
     filter (\<lambda>v. v \<notin> row_vals a r \<and> v \<notin> col_vals a c \<and> v \<notin> block_vals a k (blk k r c))
       [1..<Suc (length a)]"

text \<open>
  The pairs (empty cell, candidate value) of an array: the cells in row-major order, the
  values of a cell ascending.
\<close>

definition candidate_list :: "ndarray \<Rightarrow> nat \<Rightarrow> (nat \<times> nat \<times> nat) list" where
  "candidate_list a k =
     concat (map (\<lambda>((r, c), v). if v = 0 then map (\<lambda>w. (r, c, w)) (candidates a k r c) else [])
       (nd_enumerate a))"

text \<open>
  The dictionary that numbers a list of such pairs consecutively from \<open>next_id\<close>.
\<close>

fun numbered :: "nat \<Rightarrow> int \<Rightarrow> (nat \<times> nat \<times> nat) list \<Rightarrow> (int \<times> Proposition) list" where
  "numbered k next_id [] = []"
| "numbered k next_id ((r, c, v) # xs) =
     (next_id, \<lparr>coords = \<lparr>row = r, col = c, block = blk k r c\<rparr>, val = v, prop_id = next_id\<rparr>)
       # numbered k (next_id + 1) xs"

text \<open>
  The pairs (empty cell, allowed value) that the second loop of \<open>_possible_propositions\<close>
  walks through, for given sets of used values.
\<close>

definition loop_candidates :: "nat \<Rightarrow> nat \<Rightarrow> used \<Rightarrow> ((nat \<times> nat) \<times> nat) list \<Rightarrow> (nat \<times> nat \<times> nat) list" where
  "loop_candidates n k u cells = concat (map (\<lambda>((r, c), v). if v = 0 then map (\<lambda>w. (r, c, w))
      (sorted_list_of_set ({1..n} - fst u ! r - fst (snd u) ! c - snd (snd u) ! (blk k r c))) else []) cells)"

text \<open>
  The order of the pairs: row-major over the cells, ascending in the value within a cell.
\<close>

definition cell_value_less :: "nat \<times> nat \<times> nat \<Rightarrow> nat \<times> nat \<times> nat \<Rightarrow> bool" where
  "cell_value_less x y =
     (fst x < fst y \<or>
      (fst x = fst y \<and>
        (fst (snd x) < fst (snd y) \<or> (fst (snd x) = fst (snd y) \<and> snd (snd x) < snd (snd y)))))"

text \<open>
  Writing the value of a proposition at its coordinates of an array, and the propositions
  that a result list selects: those of its positive identifiers that are keys of the
  dictionary, in the order of the list.
\<close>

definition write_cell :: "ndarray \<Rightarrow> Proposition \<Rightarrow> ndarray" where
  "write_cell a q = a[row (coords q) := (a ! row (coords q))[col (coords q) := val q]]"

definition selected :: "(int \<times> Proposition) list \<Rightarrow> int list \<Rightarrow> Proposition list" where
  "selected props results =
     map (\<lambda>pid. the (map_of props pid))
       (filter (\<lambda>pid. 0 < pid \<and> pid \<in> fst ` set props) results)"


text \<open>
  A result list satisfies a formula when it holds no literal together with its negation
  and holds a literal of every clause: the literals of the list are the true ones.
\<close>

definition is_model :: "int list \<Rightarrow> int list list \<Rightarrow> bool" where
  "is_model results formula =
     ((\<forall>l \<in> set results. - l \<notin> set results) \<and>
      (\<forall>clause \<in> set formula. \<exists>l \<in> set clause. l \<in> set results))"

text \<open>
  The filled cells of an array are consistent when no value stands in two different cells
  of one row, one column or one block.
\<close>

definition prefilled_consistent :: "ndarray \<Rightarrow> nat \<Rightarrow> bool" where
  "prefilled_consistent a k =
     (\<forall>x \<in> set (nd_enumerate a). \<forall>y \<in> set (nd_enumerate a).
        snd x \<noteq> 0 \<and> snd x = snd y \<and> fst x \<noteq> fst y \<longrightarrow>
          fst (fst x) \<noteq> fst (fst y) \<and> snd (fst x) \<noteq> snd (fst y) \<and>
          blk k (fst (fst x)) (snd (fst x)) \<noteq> blk k (fst (fst y)) (snd (fst y)))"

text \<open>Every empty cell of an array has at least one candidate value.\<close>

definition empty_cells_have_candidates :: "ndarray \<Rightarrow> nat \<Rightarrow> bool" where
  "empty_cells_have_candidates a k =
     (\<forall>x \<in> set (nd_enumerate a). snd x = 0 \<longrightarrow> candidates a k (fst (fst x)) (snd (fst x)) \<noteq> [])"

text \<open>
  The values of a column and of a block of an array (a row is \<open>a ! r\<close>), and the solved
  arrays: every row, column and block holds each value of \<open>1..n\<close> exactly once.
\<close>

definition column_of :: "ndarray \<Rightarrow> nat \<Rightarrow> nat list" where
  "column_of a c = map (\<lambda>row. row ! c) a"

definition block_of :: "ndarray \<Rightarrow> nat \<Rightarrow> nat \<Rightarrow> nat list" where
  "block_of a k b = map snd (filter (\<lambda>((r, c), v). blk k r c = b) (nd_enumerate a))"

definition exactly_once :: "nat \<Rightarrow> nat list \<Rightarrow> bool" where
  "exactly_once n xs = (\<forall>v \<in> {1..n}. count_list xs v = 1)"

definition solved :: "ndarray \<Rightarrow> nat \<Rightarrow> bool" where
  "solved a k =
     (\<forall>i \<in> {..<length a}.
        exactly_once (length a) (a ! i) \<and>
        exactly_once (length a) (column_of a i) \<and>
        exactly_once (length a) (block_of a k i))"

section \<open>The clause primitives\<close>

lemma cnf_fold_pairs:
  "cnf (fold (\<lambda>(p, q) s. cnf_append s (f p q)) xs self) = cnf self @ map (\<lambda>(p, q). f p q) xs"
  by (induction xs arbitrary: self) (auto simp: cnf_append_def split: prod.splits)

lemma frame_fold_pairs:
  "propositions (fold (\<lambda>(p, q) s. cnf_append s (f p q)) xs self) = propositions self \<and>
   puzzle (fold (\<lambda>(p, q) s. cnf_append s (f p q)) xs self) = puzzle self"
  by (induction xs arbitrary: self) (auto simp: cnf_append_def split: prod.splits)

lemma cnf_at_least_one: "cnf (at_least_one self ps) = cnf self @ at_least_one_clauses ps"
  by (simp add: at_least_one_def at_least_one_clauses_def cnf_append_def)

lemma frame_at_least_one:
  "propositions (at_least_one self ps) = propositions self \<and>
   puzzle (at_least_one self ps) = puzzle self"
  by (simp add: at_least_one_def cnf_append_def)

lemma cnf_at_most_one: "cnf (at_most_one self ps) = cnf self @ at_most_one_clauses ps"
  unfolding at_most_one_def at_most_one_clauses_def by (rule cnf_fold_pairs)

lemma frame_at_most_one:
  "propositions (at_most_one self ps) = propositions self \<and>
   puzzle (at_most_one self ps) = puzzle self"
  unfolding at_most_one_def by (rule frame_fold_pairs)

lemma cnf_exactly_one: "cnf (exactly_one self ps) = cnf self @ exactly_one_clauses ps"
  by (simp add: exactly_one_def exactly_one_clauses_def cnf_at_most_one cnf_at_least_one)

lemma frame_exactly_one:
  "propositions (exactly_one self ps) = propositions self \<and>
   puzzle (exactly_one self ps) = puzzle self"
  by (simp add: exactly_one_def frame_at_most_one frame_at_least_one)

lemma length_combinations2_twice: "2 * length (combinations2 xs) = length xs * (length xs - 1)"
proof (induction xs)
  case Nil
  then show ?case by simp
next
  case (Cons x xs)
  then show ?case by (cases xs) (simp_all add: algebra_simps)
qed

lemma length_combinations2: "length (combinations2 xs) = length xs * (length xs - 1) div 2"
  using length_combinations2_twice [of xs] by linarith

lemma set_combinations2:
  "set (combinations2 xs) = {(xs ! i, xs ! j) | i j. i < j \<and> j < length xs}"
proof (induction xs)
  case Nil
  then show ?case by simp
next
  case (Cons x xs)
  have "{((x # xs) ! i, (x # xs) ! j) | i j. i < j \<and> j < length (x # xs)} =
        Pair x ` set xs \<union> {(xs ! i, xs ! j) | i j. i < j \<and> j < length xs}" (is "?L = ?R")
  proof (intro equalityI subsetI)
    fix p assume "p \<in> ?L"
    then obtain i j where p: "p = ((x # xs) ! i, (x # xs) ! j)" and ij: "i < j" "j < Suc (length xs)"
      by auto
    from ij obtain j' where j': "j = Suc j'" "j' < length xs" by (cases j) auto
    show "p \<in> ?R"
    proof (cases i)
      case 0
      then show ?thesis using p j' by simp
    next
      case (Suc i')
      then have "p = (xs ! i', xs ! j')" "i' < j'" using p j' ij by auto
      then show ?thesis using j' by blast
    qed
  next
    fix p assume "p \<in> ?R"
    then consider y where "y \<in> set xs" "p = (x, y)"
      | i j where "p = (xs ! i, xs ! j)" "i < j" "j < length xs" by auto
    then show "p \<in> ?L"
    proof cases
      case 1
      then obtain j where "j < length xs" "xs ! j = y" by (auto simp: in_set_conv_nth)
      then have "p = ((x # xs) ! 0, (x # xs) ! Suc j)" "0 < Suc j" "Suc j < length (x # xs)"
        using 1 by auto
      then show ?thesis by blast
    next
      case 2
      then have "p = ((x # xs) ! Suc i, (x # xs) ! Suc j)" "Suc i < Suc j" "Suc j < length (x # xs)"
        by auto
      then show ?thesis by blast
    qed
  qed
  then show ?case using Cons by simp
qed

text \<open>
  Claim C4. For every list \<open>ps\<close> of propositions: \<open>_at_least_one\<close> appends the single
  clause of all identifiers, and nothing when \<open>ps\<close> is empty (so never an empty clause);
  \<open>_at_most_one\<close> appends the clause \<open>[-p.id, -q.id]\<close> for every pair of positions
  \<open>i < j\<close> of \<open>ps\<close>, which are \<open>k * (k - 1) / 2\<close> clauses for \<open>k\<close> propositions;
  \<open>_exactly_one\<close> appends the clause of the first followed by the clauses of the second,
  and nothing when \<open>ps\<close> is empty. None of them changes the formula's earlier clauses, the
  dictionary of propositions or the puzzle.
\<close>

theorem clause_primitives:
  "cnf (at_least_one self ps) = cnf self @ (if ps = [] then [] else [map prop_id ps]) \<and>
   cnf (at_most_one self ps) =
     cnf self @ map (\<lambda>(p, q). [- prop_id p, - prop_id q]) (combinations2 ps) \<and>
   set (combinations2 ps) = {(ps ! i, ps ! j) | i j. i < j \<and> j < length ps} \<and>
   length (combinations2 ps) = length ps * (length ps - 1) div 2 \<and>
   cnf (exactly_one self ps) =
     cnf self @
       (if ps = [] then []
        else map prop_id ps # map (\<lambda>(p, q). [- prop_id p, - prop_id q]) (combinations2 ps)) \<and>
   propositions (at_least_one self ps) = propositions self \<and>
   propositions (at_most_one self ps) = propositions self \<and>
   propositions (exactly_one self ps) = propositions self \<and>
   puzzle (at_least_one self ps) = puzzle self \<and>
   puzzle (at_most_one self ps) = puzzle self \<and>
   puzzle (exactly_one self ps) = puzzle self"
  using cnf_at_least_one [of self ps] cnf_at_most_one [of self ps] cnf_exactly_one [of self ps]
    set_combinations2 [of ps] length_combinations2 [of ps]
    frame_at_least_one [of self ps] frame_at_most_one [of self ps] frame_exactly_one [of self ps]
  by (simp add: at_least_one_clauses_def at_most_one_clauses_def exactly_one_clauses_def)

section \<open>The four constraint families\<close>

lemma fold_exactly_one:
  "fold (\<lambda>g s. exactly_one s g) gs self =
     self\<lparr>cnf := cnf self @ concat (map exactly_one_clauses gs)\<rparr>"
proof (induction gs arbitrary: self)
  case Nil
  then show ?case by simp
next
  case (Cons g gs)
  have "exactly_one self g = self\<lparr>cnf := cnf self @ exactly_one_clauses g\<rparr>"
    using cnf_exactly_one [of self g] frame_exactly_one [of self g]
    by (intro SudokuCNF.equality) simp_all
  then show ?case using Cons by simp
qed

lemma fold_at_most_one:
  "fold (\<lambda>g s. at_most_one s g) gs self =
     self\<lparr>cnf := cnf self @ concat (map at_most_one_clauses gs)\<rparr>"
proof (induction gs arbitrary: self)
  case Nil
  then show ?case by simp
next
  case (Cons g gs)
  have "at_most_one self g = self\<lparr>cnf := cnf self @ at_most_one_clauses g\<rparr>"
    using cnf_at_most_one [of self g] frame_at_most_one [of self g]
    by (intro SudokuCNF.equality) simp_all
  then show ?case using Cons by simp
qed

lemma post_init_eq:
  "post_init self =
     self\<lparr>cnf := cnf self @ cell_clauses (dict_values (propositions self))
                        @ row_clauses (dict_values (propositions self))
                        @ col_clauses (dict_values (propositions self))
                        @ block_clauses (dict_values (propositions self))\<rparr>"
  by (simp add: post_init_def every_cell_has_a_single_value_def
      every_row_contains_unique_values_def every_col_contains_unique_values_def
      every_block_contains_unique_values_def fold_exactly_one fold_at_most_one
      cell_clauses_def row_clauses_def col_clauses_def block_clauses_def)

lemma group_by_keys:
  "distinct (map fst (group_by xs key)) \<and> set (map fst (group_by xs key)) = key ` set xs"
  by (simp add: group_by_def comp_def)

lemma group_by_groups:
  "set (group_by xs key) = {(k, filter (\<lambda>x. key x = k) xs) | k. k \<in> key ` set xs}"
  by (auto simp: group_by_def)

lemma encode_eq:
  "encode h p =
     (case possible_propositions h p of
        Inl e \<Rightarrow> Inl e
      | Inr props \<Rightarrow>
          Inr \<lparr>cnf = cell_clauses (dict_values props) @ row_clauses (dict_values props)
                      @ col_clauses (dict_values props) @ block_clauses (dict_values props),
               propositions = props, puzzle = p\<rparr>)"
  by (simp add: encode_def post_init_eq split: sum.splits)

text \<open>
  Claim C3. \<open>__post_init__\<close> appends to the formula exactly four families of clauses over
  the propositions of the dictionary, in this order: the exactly-one clauses of every
  group of propositions with the same cell coordinates, then the at-most-one clauses of
  every group with the same (row, value), of every group with the same (column, value)
  and of every group with the same (block, value); it appends nothing else and changes
  neither the dictionary nor the puzzle. \<open>encode\<close> runs it on the empty formula, so the
  formula of an encoding consists of these four families. A group is the list of all
  propositions with one key, and every key that occurs has one group.
\<close>

theorem four_constraint_families:
  "post_init self =
     self\<lparr>cnf := cnf self
        @ concat (map exactly_one_clauses
            (dict_values (group_by (dict_values (propositions self)) coords)))
        @ concat (map at_most_one_clauses
            (dict_values (group_by (dict_values (propositions self))
               (\<lambda>p. (row (coords p), val p)))))
        @ concat (map at_most_one_clauses
            (dict_values (group_by (dict_values (propositions self))
               (\<lambda>p. (col (coords p), val p)))))
        @ concat (map at_most_one_clauses
            (dict_values (group_by (dict_values (propositions self))
               (\<lambda>p. (block (coords p), val p)))))\<rparr> \<and>
   encode h p =
     (case possible_propositions h p of
        Inl e \<Rightarrow> Inl e
      | Inr props \<Rightarrow>
          Inr \<lparr>cnf = cell_clauses (dict_values props) @ row_clauses (dict_values props)
                      @ col_clauses (dict_values props) @ block_clauses (dict_values props),
               propositions = props, puzzle = p\<rparr>) \<and>
   set (group_by ps key) = {(k, filter (\<lambda>x. key x = k) ps) | k. k \<in> key ` set ps} \<and>
   distinct (map fst (group_by ps key))"
  using post_init_eq [of self] encode_eq [of h p] group_by_groups [of ps key]
    group_by_keys [of ps key]
  by (simp only: cell_clauses_def row_clauses_def col_clauses_def block_clauses_def simp_thms)

section \<open>Exit statuses\<close>

text \<open>
  Claim C7, as stated, fails: a run that ends "INFEASIBLE" and a run whose puzzle text is
  rejected by \<open>from_text\<close> both exit with status 1.
\<close>

theorem exit_status_counterexample:
  "main (Namespace \<lparr>puzzle_path = ''puzzle.txt'', algorithm = (), time_limit = ()\<rparr>)
     (\<lambda>path. Inr ''1'') (\<lambda>s. [s]) (\<lambda>ls. Inr [[1]]) (\<lambda>alg p t. Inr None) (\<lambda>g. Inr []) =
     ([''INFEASIBLE'', ''    - puzzle grid:'', ''1''], 1) \<and>
   main (Namespace \<lparr>puzzle_path = ''puzzle.txt'', algorithm = (), time_limit = ()\<rparr>)
     (\<lambda>path. Inr ''x'') (\<lambda>s. [s]) (\<lambda>ls. Inl MalformedPuzzle) (\<lambda>alg p t. Inr None)
     (\<lambda>g. Inr []) =
     ([''Invalid puzzle format: ''], 1)"
  by code_simp

text \<open>
  Claim C7, amended. The exit status of the process is 0, 1 or 2. It is 0 exactly when a
  solution was found and printed, or the help text was asked for. It is 2 exactly when
  solving, or printing the solution, raised a timeout, or the command line was rejected.
  It is 1 in every other case: an unreadable file, a rejected puzzle text, a puzzle
  proved infeasible, and any other exception raised by solving or by printing the
  solution. So, once the command line is accepted, success, timeout and the rest have
  three distinct statuses, while infeasibility and input errors share status 1.
\<close>

theorem exit_status_classes:
  "snd (main pa rd lo ft sv st) \<in> {0, 1, 2} \<and>
   (snd (main pa rd lo ft sv st) = 0 \<longleftrightarrow>
      pa = Help \<or>
      (\<exists>a d p s t. pa = Namespace a \<and> rd (puzzle_path a) = Inr d \<and> ft (lo d) = Inr p \<and>
         sv (algorithm a) p (time_limit a) = Inr (Some s) \<and> st s = Inr t)) \<and>
   (snd (main pa rd lo ft sv st) = 2 \<longleftrightarrow>
      pa = UsageError \<or>
      (\<exists>a d p e. pa = Namespace a \<and> rd (puzzle_path a) = Inr d \<and> ft (lo d) = Inr p \<and>
         (e = TimeoutError \<or> e = FuturesTimeoutError) \<and>
         (sv (algorithm a) p (time_limit a) = Inl e \<or>
          (\<exists>s. sv (algorithm a) p (time_limit a) = Inr (Some s) \<and> st s = Inl e)))) \<and>
   (snd (main pa rd lo ft sv st) = 1 \<longleftrightarrow>
      (\<exists>a. pa = Namespace a \<and>
         ((\<exists>e. rd (puzzle_path a) = Inl e) \<or>
          (\<exists>d. rd (puzzle_path a) = Inr d \<and>
             ((\<exists>e. ft (lo d) = Inl e) \<or>
              (\<exists>p. ft (lo d) = Inr p \<and>
                 (sv (algorithm a) p (time_limit a) = Inr None \<or>
                  (\<exists>e. e \<noteq> TimeoutError \<and> e \<noteq> FuturesTimeoutError \<and>
                     (sv (algorithm a) p (time_limit a) = Inl e \<or>
                      (\<exists>s. sv (algorithm a) p (time_limit a) = Inr (Some s) \<and>
                         st s = Inl e))))))))))"
proof (cases pa)
  case Help
  then show ?thesis by (simp add: main_def)
next
  case UsageError
  then show ?thesis by (simp add: main_def)
next
  case (Namespace a)
  show ?thesis
  proof (cases "rd (puzzle_path a)")
    case (Inl e)
    then show ?thesis using Namespace by (simp add: main_def)
  next
    case d: (Inr d)
    show ?thesis
    proof (cases "ft (lo d)")
      case (Inl e)
      then show ?thesis using Namespace d by (simp add: main_def)
    next
      case p: (Inr p)
      show ?thesis
      proof (cases "sv (algorithm a) p (time_limit a)")
        case (Inl e)
        then show ?thesis using Namespace d p by (simp add: main_def)
      next
        case r: (Inr r)
        show ?thesis
        proof (cases r)
          case None
          then show ?thesis using Namespace d p r by (simp add: main_def)
        next
          case (Some s)
          then show ?thesis using Namespace d p r
            by (cases "st s") (simp_all add: main_def)
        qed
      qed
    qed
  qed
qed

section \<open>Cell access\<close>

lemma norm_index_cases:
  "norm_index n i =
     (if - int n \<le> i \<and> i < int n then Inr (wrap n i) else Inl IndexError)"
  by (auto simp: norm_index_def wrap_def)

lemma valid_row_length: "valid_array a \<Longrightarrow> i < length a \<Longrightarrow> length (a ! i) = length a"
  by (auto simp: valid_array_def list_all_iff)

lemma wrap_less: "- int n \<le> i \<Longrightarrow> i < int n \<Longrightarrow> wrap n i < n"
  by (auto simp: wrap_def)

lemma wrap_int [simp]: "wrap n (int i) = i"
  by (simp add: wrap_def)

lemma getitem_valid:
  assumes "valid_grid h g"
  shows "getitem h g (r, c) =
     (let n = grid_size h g in
      if - int n \<le> r \<and> r < int n \<and> - int n \<le> c \<and> c < int n
      then Inr (grid_array h g ! wrap n r ! wrap n c) else Inl IndexError)"
proof -
  let ?a = "grid_array h g"
  have va: "valid_array ?a" using assms by (simp add: valid_grid_def)
  show ?thesis
  proof (cases "- int (length ?a) \<le> r \<and> r < int (length ?a)")
    case True
    then have "wrap (length ?a) r < length ?a" by (simp add: wrap_less)
    then have "length (?a ! wrap (length ?a) r) = length ?a"
      using va by (rule valid_row_length[rotated])
    then show ?thesis using True
      by (simp add: getitem_def grid_size_def norm_index_cases Let_def)
  next
    case False
    then show ?thesis
      by (auto simp add: getitem_def grid_size_def norm_index_cases Let_def)
  qed
qed

lemma setitem_valid:
  assumes "valid_grid h g"
  shows "setitem h g (r, c) v =
     (let n = grid_size h g; a = grid_array h g in
      if \<not> (- int n \<le> r \<and> r < int n \<and> - int n \<le> c \<and> c < int n) then Inl IndexError
      else if uint_max < int v then Inl OverflowError
      else Inr (h[array g := a[wrap n r := (a ! wrap n r)[wrap n c := v]]]))"
proof -
  let ?a = "grid_array h g"
  have va: "valid_array ?a" using assms by (simp add: valid_grid_def)
  show ?thesis
  proof (cases "- int (length ?a) \<le> r \<and> r < int (length ?a)")
    case True
    then have "wrap (length ?a) r < length ?a" by (simp add: wrap_less)
    then have "length (?a ! wrap (length ?a) r) = length ?a"
      using va by (rule valid_row_length[rotated])
    then show ?thesis using True
      by (simp add: setitem_def grid_size_def norm_index_cases Let_def)
  next
    case False
    then show ?thesis
      by (auto simp add: setitem_def grid_size_def norm_index_cases Let_def)
  qed
qed

text \<open>
  Claim C10, as stated, fails: on the 1 x 1 grid holding 1, reading at \<open>(-1, -1)\<close> raises
  nothing and returns the cell \<open>(0, 0)\<close>, although \<open>-1\<close> lies outside \<open>[0, 1)\<close>.
\<close>

theorem cell_access_counterexample:
  "\<not> (\<forall>h g r c. valid_grid h g \<longrightarrow>
        ((\<exists>e. getitem h g (r, c) = Inl e) \<longleftrightarrow>
         \<not> (0 \<le> r \<and> r < int (grid_size h g) \<and> 0 \<le> c \<and> c < int (grid_size h g))))"
proof
  assume a: "\<forall>h g r c. valid_grid h g \<longrightarrow>
        ((\<exists>e. getitem h g (r, c) = Inl e) \<longleftrightarrow>
         \<not> (0 \<le> r \<and> r < int (grid_size h g) \<and> 0 \<le> c \<and> c < int (grid_size h g)))"
  have v: "valid_grid [[[1]]] \<lparr>array = 0\<rparr>"
    by (simp add: valid_grid_def valid_array_def grid_array_def grid_size_def uint_max_def)
  have "getitem [[[1]]] \<lparr>array = 0\<rparr> (- 1, - 1) = Inr 1"
    by (simp add: getitem_def grid_array_def norm_index_def)
  moreover have "\<exists>e. getitem [[[1]]] \<lparr>array = 0\<rparr> (- 1, - 1) = Inl e"
    using a [rule_format, OF v, of "- 1" "- 1"] by (simp add: grid_size_def grid_array_def)
  ultimately show False by simp
qed

text \<open>
  Claim C10, amended. On a valid \<open>n\<close> x \<open>n\<close> grid, \<open>get\<close> and \<open>set\<close> at \<open>(row, col)\<close> raise
  IndexError exactly when \<open>row\<close> or \<open>col\<close> lies outside \<open>[-n, n)\<close>. With both indices
  inside, \<open>get\<close> reads the one cell at the wrapped position: an index of \<open>[0, n)\<close> stands
  for itself, an index of \<open>[-n, 0)\<close> for the index plus \<open>n\<close>. With both indices inside,
  \<open>set\<close> of a non-negative value raises OverflowError and writes nothing when the value is
  above \<open>2 ^ 64 - 1\<close>, and otherwise writes the value to the one cell at the wrapped
  position, changing no other cell of the array and no other array of the heap.
\<close>

theorem cell_access_bounds:
  assumes "valid_grid h g"
  shows "getitem h g (r, c) =
     (let n = grid_size h g in
      if - int n \<le> r \<and> r < int n \<and> - int n \<le> c \<and> c < int n
      then Inr (grid_array h g ! wrap n r ! wrap n c) else Inl IndexError) \<and>
   setitem h g (r, c) v =
     (let n = grid_size h g; a = grid_array h g in
      if \<not> (- int n \<le> r \<and> r < int n \<and> - int n \<le> c \<and> c < int n) then Inl IndexError
      else if 2 ^ 64 - 1 < int v then Inl OverflowError
      else Inr (h[array g := a[wrap n r := (a ! wrap n r)[wrap n c := v]]])) \<and>
   (0 \<le> r \<longrightarrow> wrap (grid_size h g) r = nat r) \<and>
   (r < 0 \<longrightarrow> wrap (grid_size h g) r = nat (r + int (grid_size h g)))"
proof -
  have u: "(2 ^ 64 - 1 :: int) = uint_max" by (simp add: uint_max_def)
  show ?thesis
    unfolding u
    using getitem_valid [OF assms, of r c] setitem_valid [OF assms, of r c v]
    by (simp add: wrap_def)
qed

theorem cell_access_bounds_witness:
  "valid_grid [[[1, 0, 0, 0], [0, 0, 3, 0], [0, 4, 0, 0], [0, 0, 0, 2]]] \<lparr>array = 0\<rparr> \<and>
   getitem [[[1, 0, 0, 0], [0, 0, 3, 0], [0, 4, 0, 0], [0, 0, 0, 2]]] \<lparr>array = 0\<rparr> (1, - 2)
     = Inr 3 \<and>
   setitem [[[1, 0, 0, 0], [0, 0, 3, 0], [0, 4, 0, 0], [0, 0, 0, 2]]] \<lparr>array = 0\<rparr> (0, 1) 2
     = Inr [[[1, 2, 0, 0], [0, 0, 3, 0], [0, 4, 0, 0], [0, 0, 0, 2]]] \<and>
   getitem [[[1, 0, 0, 0], [0, 0, 3, 0], [0, 4, 0, 0], [0, 0, 0, 2]]] \<lparr>array = 0\<rparr> (4, 0)
     = Inl IndexError \<and>
   setitem [[[1, 0, 0, 0], [0, 0, 3, 0], [0, 4, 0, 0], [0, 0, 0, 2]]] \<lparr>array = 0\<rparr> (- 1, 0)
       18446744073709551616
     = Inl OverflowError \<and>
   setitem [[[1, 0, 0, 0], [0, 0, 3, 0], [0, 4, 0, 0], [0, 0, 0, 2]]] \<lparr>array = 0\<rparr> (4, 0)
       18446744073709551616
     = Inl IndexError"
proof -
  have v: "valid_grid [[[1, 0, 0, 0], [0, 0, 3, 0], [0, 4, 0, 0], [0, 0, 0, 2]]] \<lparr>array = 0\<rparr>"
    by (simp add: valid_grid_def valid_array_def grid_array_def grid_size_def uint_max_def
        upt_rec)
  show ?thesis
    using v cell_access_bounds [OF v, of 1 "- 2" 2] cell_access_bounds [OF v, of 0 1 2]
      cell_access_bounds [OF v, of 4 0 18446744073709551616]
      cell_access_bounds [OF v, of "- 1" 0 18446744073709551616]
    by (simp add: grid_size_def grid_array_def wrap_def)
qed

section \<open>The proposition space\<close>

lemma set_nd_enumerate:
  "set (nd_enumerate a) = {((r, c), a ! r ! c) | r c. r < length a \<and> c < length (a ! r)}"
  by (auto simp: nd_enumerate_def)

lemma square_root_unique: "(k::nat) * k = n \<Longrightarrow> j * j = n \<Longrightarrow> j = k"
  by (metis bot_nat_0.not_eq_extremum le_antisym linorder_linear
    mult_le_cancel2 nat_mult_le_cancel_disj)

lemma find_square_root:
  assumes "(k::nat) * k = n"
  shows "find (\<lambda>j. j * j = n) [0..<Suc n] = Some k"
proof -
  have kn: "k \<le> n" using assms by (cases k) auto
  have "\<forall>j<k. j * j \<noteq> n" using assms square_root_unique by blast
  then have "\<exists>i<length [0..<Suc n]. [0..<Suc n] ! i * ([0..<Suc n] ! i) = n \<and> k = [0..<Suc n] ! i \<and>
      (\<forall>j<i. \<not> ([0..<Suc n] ! j * ([0..<Suc n] ! j) = n))"
    using kn assms by (intro exI[of _ k]) (auto simp: nth_upt simp del: upt_Suc)
  then show ?thesis by (simp only: find_Some_iff)
qed

lemma blk_less:
  assumes "k * k = n" "r < n" "c < n"
  shows "blk k r c < n"
proof -
  have k: "0 < k" using assms by (cases k) auto
  have q: "r div k < k" "c div k < k"
    using assms by (simp_all add: less_mult_imp_div_less)
  then have "(r div k) * k + c div k < (r div k) * k + k" by simp
  also have "\<dots> = Suc (r div k) * k" by simp
  also have "\<dots> \<le> k * k" using q(1) by (intro mult_le_mono1) simp
  finally show ?thesis using assms by (simp add: blk_def)
qed

lemma block_index_valid:
  assumes "k * k = grid_size h p"
  shows "block_index h p r c = Inr (blk k r c)"
  using find_square_root [OF assms] by (simp add: block_index_def block_size_def blk_def)

lemma map_upt_eqI: "(\<And>i. i < n \<Longrightarrow> f i = g i) \<Longrightarrow> map f [0..<n] = map g [0..<n]"
  by simp

lemma mark_used_result:
  assumes "\<forall>((r, c), v) \<in> set cells. r < n \<and> c < n \<and> blk k r c < n"
    and "\<And>r c. bi r c = Inr (blk k r c)"
    and "length ru = n" "length cu = n" "length bu = n"
  shows "mark_used bi cells (ru, cu, bu) =
     Inr (map (\<lambda>r. ru ! r \<union> {v. v \<noteq> 0 \<and> (\<exists>c. ((r, c), v) \<in> set cells)}) [0..<n],
          map (\<lambda>c. cu ! c \<union> {v. v \<noteq> 0 \<and> (\<exists>r. ((r, c), v) \<in> set cells)}) [0..<n],
          map (\<lambda>b. bu ! b \<union> {v. v \<noteq> 0 \<and> (\<exists>r c. ((r, c), v) \<in> set cells \<and> blk k r c = b)})
            [0..<n])"
  using assms
proof (induction cells arbitrary: ru cu bu)
  case Nil
  have "map ((!) ru) [0..<n] = ru" using Nil.prems(3) map_nth [of ru] by simp
  moreover have "map ((!) cu) [0..<n] = cu" using Nil.prems(4) map_nth [of cu] by simp
  moreover have "map ((!) bu) [0..<n] = bu" using Nil.prems(5) map_nth [of bu] by simp
  ultimately show ?case by simp
next
  case (Cons x cells)
  obtain r c v where x: "x = ((r, c), v)" by (metis prod.exhaust)
  have rng: "r < n" "c < n" "blk k r c < n" using Cons.prems(1) x by auto
  have rest: "\<forall>((r, c), v) \<in> set cells. r < n \<and> c < n \<and> blk k r c < n"
    using Cons.prems(1) by auto
  show ?case
  proof (cases "v = 0")
    case True
    have "mark_used bi (x # cells) (ru, cu, bu) = mark_used bi cells (ru, cu, bu)"
      using True x by simp
    also note Cons.IH [OF rest Cons.prems(2) Cons.prems(3-5)]
    finally show ?thesis using True x by auto
  next
    case False
    let ?ru = "ru[r := insert v (ru ! r)]"
    let ?cu = "cu[c := insert v (cu ! c)]"
    let ?bu = "bu[blk k r c := insert v (bu ! blk k r c)]"
    have len: "length ?ru = n" "length ?cu = n" "length ?bu = n" using Cons.prems by simp_all
    have step: "mark_used bi (x # cells) (ru, cu, bu) = mark_used bi cells (?ru, ?cu, ?bu)"
      using False x rng Cons.prems(2-5) by simp
    have R: "map (\<lambda>r'. ?ru ! r' \<union> {w. w \<noteq> 0 \<and> (\<exists>c. ((r', c), w) \<in> set cells)}) [0..<n] =
             map (\<lambda>r'. ru ! r' \<union> {w. w \<noteq> 0 \<and> (\<exists>c. ((r', c), w) \<in> set (x # cells))}) [0..<n]"
    proof (rule map_upt_eqI)
      fix i assume "i < n"
      then have "?ru ! i = (if i = r then insert v (ru ! r) else ru ! i)"
        using Cons.prems(3) by (simp add: nth_list_update)
      then show "?ru ! i \<union> {w. w \<noteq> 0 \<and> (\<exists>c. ((i, c), w) \<in> set cells)} =
                 ru ! i \<union> {w. w \<noteq> 0 \<and> (\<exists>c. ((i, c), w) \<in> set (x # cells))}"
        using False x by auto
    qed
    have C: "map (\<lambda>c'. ?cu ! c' \<union> {w. w \<noteq> 0 \<and> (\<exists>r. ((r, c'), w) \<in> set cells)}) [0..<n] =
             map (\<lambda>c'. cu ! c' \<union> {w. w \<noteq> 0 \<and> (\<exists>r. ((r, c'), w) \<in> set (x # cells))}) [0..<n]"
    proof (rule map_upt_eqI)
      fix i assume "i < n"
      then have "?cu ! i = (if i = c then insert v (cu ! c) else cu ! i)"
        using Cons.prems(4) by (simp add: nth_list_update)
      then show "?cu ! i \<union> {w. w \<noteq> 0 \<and> (\<exists>r. ((r, i), w) \<in> set cells)} =
                 cu ! i \<union> {w. w \<noteq> 0 \<and> (\<exists>r. ((r, i), w) \<in> set (x # cells))}"
        using False x by auto
    qed
    have B: "map (\<lambda>b. ?bu ! b \<union> {w. w \<noteq> 0 \<and> (\<exists>r c. ((r, c), w) \<in> set cells \<and> blk k r c = b)}) [0..<n] =
             map (\<lambda>b. bu ! b \<union> {w. w \<noteq> 0 \<and> (\<exists>r c. ((r, c), w) \<in> set (x # cells) \<and> blk k r c = b)}) [0..<n]"
    proof (rule map_upt_eqI)
      fix i assume "i < n"
      then have "?bu ! i = (if i = blk k r c then insert v (bu ! blk k r c) else bu ! i)"
        using Cons.prems(5) by (simp add: nth_list_update)
      then show "?bu ! i \<union> {w. w \<noteq> 0 \<and> (\<exists>r c. ((r, c), w) \<in> set cells \<and> blk k r c = i)} =
                 bu ! i \<union> {w. w \<noteq> 0 \<and> (\<exists>r c. ((r, c), w) \<in> set (x # cells) \<and> blk k r c = i)}"
        using False x by auto
    qed
    show ?thesis
      unfolding step Cons.IH [OF rest Cons.prems(2) len] R C B ..
  qed
qed


lemma update_fresh: "k \<notin> fst ` set ps \<Longrightarrow> AList.update k v ps = ps @ [(k, v)]"
  by (induction ps) auto

lemma numbered_append:
  "numbered k nid (xs @ ys) = numbered k nid xs @ numbered k (nid + int (length xs)) ys"
proof (induction xs arbitrary: nid)
  case Nil
  then show ?case by simp
next
  case (Cons x xs)
  obtain r c v where x: "x = (r, c, v)" by (metis prod.exhaust)
  then show ?case using Cons [of "nid + 1"] x by (simp add: add.assoc)
qed

lemma add_props_eq:
  assumes "\<forall>key \<in> fst ` set ps. key < nid"
  shows "add_props r c (blk k r c) vs (ps, nid) =
     (ps @ numbered k nid (map (\<lambda>w. (r, c, w)) vs), nid + int (length vs))"
  using assms
proof (induction vs arbitrary: ps nid)
  case Nil
  then show ?case by (simp add: add_props_def)
next
  case (Cons v vs)
  let ?p = "\<lparr>coords = \<lparr>row = r, col = c, block = blk k r c\<rparr>, val = v, prop_id = nid\<rparr>"
  have fresh: "nid \<notin> fst ` set ps" using Cons.prems by auto
  have step: "add_props r c (blk k r c) (v # vs) (ps, nid) =
      add_props r c (blk k r c) vs (ps @ [(nid, ?p)], nid + 1)"
    by (simp add: add_props_def update_fresh [OF fresh])
  have "\<forall>key \<in> fst ` set (ps @ [(nid, ?p)]). key < nid + 1" using Cons.prems by auto
  from Cons.IH [OF this] show ?case unfolding step by (simp add: algebra_simps)
qed

lemma numbered_keys_bound:
  "key \<in> fst ` set (numbered k nid xs) \<Longrightarrow> nid \<le> key \<and> key < nid + int (length xs)"
proof (induction xs arbitrary: nid)
  case Nil
  then show ?case by simp
next
  case (Cons x xs)
  obtain r c v where x: "x = (r, c, v)" by (metis prod.exhaust)
  from Cons.prems x have "key = nid \<or> key \<in> fst ` set (numbered k (nid + 1) xs)" by auto
  then show ?case
  proof (elim disjE)
    assume "key = nid"
    then show ?thesis by simp
  next
    assume "key \<in> fst ` set (numbered k (nid + 1) xs)"
    from Cons.IH [OF this] show ?thesis by simp
  qed
qed

lemma sorted_list_of_set_diff3:
  "sorted_list_of_set ({1..n} - A - B - C) =
     filter (\<lambda>v. v \<notin> A \<and> v \<notin> B \<and> v \<notin> C) [1..<Suc n]"
proof -
  let ?xs = "filter (\<lambda>v. v \<notin> A \<and> v \<notin> B \<and> v \<notin> C) [1..<Suc n]"
  have s: "set ?xs = {1..n} - A - B - C" by (auto simp del: upt_Suc)
  have "sorted ?xs" by (rule sorted_wrt_filter) (rule sorted_upt)
  moreover have "distinct ?xs" by (rule distinct_filter) (rule distinct_upt)
  ultimately have "sorted_list_of_set (set ?xs) = ?xs"
    by (rule sorted_list_of_set.idem_if_sorted_distinct)
  then show ?thesis unfolding s .
qed

lemma gen_props_result:
  assumes "\<forall>((r, c), v) \<in> set cells. r < n \<and> c < n \<and> blk k r c < n"
    and "\<And>r c. bi r c = Inr (blk k r c)"
    and "length ru = n" "length cu = n" "length bu = n"
    and "\<forall>key \<in> fst ` set ps. key < nid"
  shows "gen_props bi n (ru, cu, bu) cells (ps, nid) =
     Inr (ps @ numbered k nid (loop_candidates n k (ru, cu, bu) cells),
          nid + int (length (loop_candidates n k (ru, cu, bu) cells)))"
  using assms
proof (induction cells arbitrary: ps nid)
  case Nil
  then show ?case by (simp add: loop_candidates_def)
next
  case (Cons x cells)
  obtain r c v where x: "x = ((r, c), v)" by (metis prod.exhaust)
  have rng: "r < n" "c < n" "blk k r c < n" using Cons.prems(1) x by auto
  have rest: "\<forall>((r, c), v) \<in> set cells. r < n \<and> c < n \<and> blk k r c < n"
    using Cons.prems(1) by auto
  show ?case
  proof (cases "v = 0")
    case False
    have "gen_props bi n (ru, cu, bu) (x # cells) (ps, nid) =
          gen_props bi n (ru, cu, bu) cells (ps, nid)"
      using False x by simp
    moreover have "loop_candidates n k (ru, cu, bu) (x # cells) = loop_candidates n k (ru, cu, bu) cells"
      using False x by (simp add: loop_candidates_def)
    ultimately show ?thesis
      using Cons.IH [OF rest Cons.prems(2-6)] by simp
  next
    case True
    let ?vs = "sorted_list_of_set ({1..n} - ru ! r - cu ! c - bu ! (blk k r c))"
    let ?new = "map (\<lambda>w. (r, c, w)) ?vs"
    have step: "gen_props bi n (ru, cu, bu) (x # cells) (ps, nid) =
          gen_props bi n (ru, cu, bu) cells (add_props r c (blk k r c) ?vs (ps, nid))"
      using True x rng Cons.prems(2-5) by (simp add: Let_def)
    have ap: "add_props r c (blk k r c) ?vs (ps, nid) =
        (ps @ numbered k nid ?new, nid + int (length ?vs))"
      by (rule add_props_eq [OF Cons.prems(6)])
    have keys: "\<forall>key \<in> fst ` set (ps @ numbered k nid ?new). key < nid + int (length ?vs)"
    proof
      fix key assume "key \<in> fst ` set (ps @ numbered k nid ?new)"
      then have "key \<in> fst ` set ps \<or> key \<in> fst ` set (numbered k nid ?new)" by auto
      then show "key < nid + int (length ?vs)"
        using Cons.prems(6) numbered_keys_bound [of key k nid ?new] by auto
    qed
    have c: "loop_candidates n k (ru, cu, bu) (x # cells) = ?new @ loop_candidates n k (ru, cu, bu) cells"
      using True x by (simp add: loop_candidates_def)
    show ?thesis
      unfolding step ap Cons.IH [OF rest Cons.prems(2-5) keys] c
      by (simp add: numbered_append add.assoc)
  qed
qed


lemma row_vals_eq: "row_vals a r = {v. v \<noteq> 0 \<and> (\<exists>c. ((r, c), v) \<in> set (nd_enumerate a))}"
  by (force simp: row_vals_def)

lemma col_vals_eq: "col_vals a c = {v. v \<noteq> 0 \<and> (\<exists>r. ((r, c), v) \<in> set (nd_enumerate a))}"
  by (force simp: col_vals_def)

lemma block_vals_eq:
  "block_vals a k b =
     {v. v \<noteq> 0 \<and> (\<exists>r c. ((r, c), v) \<in> set (nd_enumerate a) \<and> blk k r c = b)}"
  by (force simp: block_vals_def)

lemma cells_in_range:
  assumes "valid_array a" "k * k = length a"
  shows "\<forall>((r, c), v) \<in> set (nd_enumerate a). r < length a \<and> c < length a \<and> blk k r c < length a"
proof -
  {
    fix r c v assume "((r, c), v) \<in> set (nd_enumerate a)"
    then have r: "r < length a" and "c < length (a ! r)" by (auto simp: set_nd_enumerate)
    then have c: "c < length a" using valid_row_length [OF assms(1)] by simp
    have "r < length a \<and> c < length a \<and> blk k r c < length a"
      using r c blk_less [OF assms(2) r c] by simp
  }
  then show ?thesis by auto
qed

lemma possible_propositions_valid:
  assumes "valid_grid h p" "k * k = grid_size h p"
  shows "possible_propositions h p = Inr (numbered k 1 (candidate_list (grid_array h p) k))"
proof -
  let ?a = "grid_array h p"
  let ?n = "length ?a"
  let ?cells = "nd_enumerate ?a"
  let ?e = "replicate ?n ({}::nat set)"
  let ?RU = "map (\<lambda>r. ?e ! r \<union> {v. v \<noteq> 0 \<and> (\<exists>c. ((r, c), v) \<in> set ?cells)}) [0..<?n]"
  let ?CU = "map (\<lambda>c. ?e ! c \<union> {v. v \<noteq> 0 \<and> (\<exists>r. ((r, c), v) \<in> set ?cells)}) [0..<?n]"
  let ?BU = "map (\<lambda>b. ?e ! b \<union> {v. v \<noteq> 0 \<and> (\<exists>r c. ((r, c), v) \<in> set ?cells \<and> blk k r c = b)}) [0..<?n]"
  have va: "valid_array ?a" using assms(1) by (simp add: valid_grid_def)
  have kk: "k * k = ?n" using assms(2) by (simp add: grid_size_def)
  have rng: "\<forall>((r, c), v) \<in> set ?cells. r < ?n \<and> c < ?n \<and> blk k r c < ?n"
    by (rule cells_in_range [OF va kk])
  have bi: "\<And>r c. block_index h p r c = Inr (blk k r c)"
    by (rule block_index_valid [OF assms(2)])
  have mu: "mark_used (block_index h p) ?cells (?e, ?e, ?e) = Inr (?RU, ?CU, ?BU)"
    by (rule mark_used_result [OF rng bi]) simp_all
  have gp: "gen_props (block_index h p) ?n (?RU, ?CU, ?BU) ?cells ([], 1) =
      Inr ([] @ numbered k 1 (loop_candidates ?n k (?RU, ?CU, ?BU) ?cells),
           1 + int (length (loop_candidates ?n k (?RU, ?CU, ?BU) ?cells)))"
    by (rule gen_props_result [OF rng bi]) simp_all
  have cl_eq: "loop_candidates ?n k (?RU, ?CU, ?BU) ?cells = candidate_list ?a k"
    unfolding loop_candidates_def candidate_list_def
  proof (rule arg_cong [where f = concat], rule map_cong [OF refl])
    fix x assume x: "x \<in> set ?cells"
    obtain r c v where xe: "x = ((r, c), v)" by (metis prod.exhaust)
    have r: "r < ?n" "c < ?n" "blk k r c < ?n" using rng x xe by auto
    have "?RU ! r = row_vals ?a r" "?CU ! c = col_vals ?a c"
      "?BU ! blk k r c = block_vals ?a k (blk k r c)"
      using r by (simp_all add: row_vals_eq col_vals_eq block_vals_eq)
    then show "(case x of (x, xa) \<Rightarrow> (case x of (r, c) \<Rightarrow> \<lambda>v. if v = 0 then map (\<lambda>w. (r, c, w))
            (sorted_list_of_set ({1..?n} - fst (?RU, ?CU, ?BU) ! r - fst (snd (?RU, ?CU, ?BU)) ! c -
               snd (snd (?RU, ?CU, ?BU)) ! blk k r c)) else []) xa) =
          (case x of (x, xa) \<Rightarrow> (case x of (r, c) \<Rightarrow> \<lambda>v. if v = 0 then map (\<lambda>w. (r, c, w)) (candidates ?a k r c) else []) xa)"
      unfolding xe by (simp add: candidates_def sorted_list_of_set_diff3 [unfolded One_nat_def] del: upt_Suc)
  qed
  show ?thesis
    unfolding possible_propositions_def grid_enumerate_def grid_size_def Let_def
    using mu gp cl_eq by (simp add: grid_size_def)
qed

lemma numbered_nth:
  "i < length xs \<Longrightarrow> numbered k nid xs ! i =
     (nid + int i, \<lparr>coords = \<lparr>row = fst (xs ! i), col = fst (snd (xs ! i)),
         block = blk k (fst (xs ! i)) (fst (snd (xs ! i)))\<rparr>,
        val = snd (snd (xs ! i)), prop_id = nid + int i\<rparr>)"
proof (induction xs arbitrary: nid i)
  case Nil
  then show ?case by simp
next
  case (Cons x xs)
  obtain r c v where x: "x = (r, c, v)" by (metis prod.exhaust)
  show ?case
  proof (cases i)
    case 0
    then show ?thesis using x by simp
  next
    case (Suc j)
    then have "j < length xs" using Cons.prems by simp
    from Cons.IH [OF this, of "nid + 1"] show ?thesis using x Suc by (simp add: add.assoc)
  qed
qed

lemma length_numbered [simp]: "length (numbered k nid xs) = length xs"
  by (induction k nid xs rule: numbered.induct) simp_all

lemma sorted_wrt_concat_map:
  assumes "sorted_wrt Q xs"
    and "\<And>x. x \<in> set xs \<Longrightarrow> sorted_wrt R (F x)"
    and "\<And>x y u w. Q x y \<Longrightarrow> x \<in> set xs \<Longrightarrow> y \<in> set xs \<Longrightarrow> u \<in> set (F x) \<Longrightarrow> w \<in> set (F y) \<Longrightarrow> R u w"
  shows "sorted_wrt R (concat (map F xs))"
  using assms
proof (induction xs)
  case Nil
  then show ?case by simp
next
  case (Cons x xs)
  have "sorted_wrt R (concat (map F xs))"
    using Cons.prems by (intro Cons.IH) auto
  moreover have "sorted_wrt R (F x)" using Cons.prems(2) by simp
  moreover have "\<forall>u \<in> set (F x). \<forall>w \<in> set (concat (map F xs)). R u w"
    using Cons.prems(1,3) by auto
  ultimately show ?case by (simp add: sorted_wrt_append)
qed


lemma numbered_keys: "map fst (numbered k 1 xs) = map int [1..<Suc (length xs)]"
proof (rule nth_equalityI)
  show "length (map fst (numbered k 1 xs)) = length (map int [1..<Suc (length xs)])"
    by (simp del: upt_Suc)
next
  fix i assume "i < length (map fst (numbered k 1 xs))"
  then have i: "i < length xs" by simp
  then have "[1..<Suc (length xs)] ! i = 1 + i" by (intro nth_upt) simp
  then show "map fst (numbered k 1 xs) ! i = map int [1..<Suc (length xs)] ! i"
    using i by (simp add: numbered_nth del: upt_Suc)
qed


lemma nd_enumerate_sorted:
  "sorted_wrt (\<lambda>x y. fst (fst x) < fst (fst y) \<or>
      (fst (fst x) = fst (fst y) \<and> snd (fst x) < snd (fst y))) (nd_enumerate a)"
  unfolding nd_enumerate_def
proof (rule sorted_wrt_concat_map [where Q = "(<)"])
  show "sorted_wrt (<) [0..<length a]" by simp
next
  fix r
  have "sorted_wrt (<) [0..<length (a ! r)]" by simp
  then show "sorted_wrt (\<lambda>x y. fst (fst x) < fst (fst y) \<or>
      (fst (fst x) = fst (fst y) \<and> snd (fst x) < snd (fst y)))
      (map (\<lambda>c. ((r, c), a ! r ! c)) [0..<length (a ! r)])"
    by (simp add: sorted_wrt_map del: upt_Suc)
next
  fix r r' :: nat and u w :: "(nat \<times> nat) \<times> nat"
  assume "r < r'" "u \<in> set (map (\<lambda>c. ((r, c), a ! r ! c)) [0..<length (a ! r)])"
    "w \<in> set (map (\<lambda>c. ((r', c), a ! r' ! c)) [0..<length (a ! r')])"
  then show "fst (fst u) < fst (fst w) \<or> (fst (fst u) = fst (fst w) \<and> snd (fst u) < snd (fst w))"
    by auto
qed

lemma candidates_sorted: "sorted_wrt (<) (candidates a k r c)"
  unfolding candidates_def by (rule sorted_wrt_filter) (simp del: upt_Suc)

lemma candidate_list_sorted: "sorted_wrt cell_value_less (candidate_list a k)"
  unfolding candidate_list_def
proof (rule sorted_wrt_concat_map [OF nd_enumerate_sorted])
  fix x :: "(nat \<times> nat) \<times> nat"
  obtain r c v where x: "x = ((r, c), v)" by (metis prod.exhaust)
  have "sorted_wrt cell_value_less (map (\<lambda>w. (r, c, w)) (candidates a k r c))"
    using candidates_sorted [of a k r c]
    by (simp add: sorted_wrt_map cell_value_less_def)
  then show "sorted_wrt cell_value_less
     (case x of (x, xa) \<Rightarrow> (case x of (r, c) \<Rightarrow> \<lambda>v. if v = 0 then map (\<lambda>w. (r, c, w)) (candidates a k r c) else []) xa)"
    using x by simp
next
  fix x y :: "(nat \<times> nat) \<times> nat" and u w :: "nat \<times> nat \<times> nat"
  assume q: "fst (fst x) < fst (fst y) \<or> (fst (fst x) = fst (fst y) \<and> snd (fst x) < snd (fst y))"
    and u: "u \<in> set (case x of (x, xa) \<Rightarrow> (case x of (r, c) \<Rightarrow> \<lambda>v. if v = 0 then map (\<lambda>w. (r, c, w)) (candidates a k r c) else []) xa)"
    and w: "w \<in> set (case y of (x, xa) \<Rightarrow> (case x of (r, c) \<Rightarrow> \<lambda>v. if v = 0 then map (\<lambda>w. (r, c, w)) (candidates a k r c) else []) xa)"
  from u have "fst u = fst (fst x)" "fst (snd u) = snd (fst x)"
    by (auto split: prod.splits if_splits)
  moreover from w have "fst w = fst (fst y)" "fst (snd w) = snd (fst y)"
    by (auto split: prod.splits if_splits)
  ultimately show "cell_value_less u w" using q by (auto simp: cell_value_less_def)
qed

lemma set_candidate_list:
  "set (candidate_list a k) =
     {(r, c, v). r < length a \<and> c < length (a ! r) \<and> a ! r ! c = 0 \<and>
        v \<in> {1..length a} - row_vals a r - col_vals a c - block_vals a k (blk k r c)}"
proof -
  have "(r, c, v) \<in> set (candidate_list a k) \<longleftrightarrow>
        r < length a \<and> c < length (a ! r) \<and> a ! r ! c = 0 \<and>
        v \<in> {1..length a} - row_vals a r - col_vals a c - block_vals a k (blk k r c)" for r c v
  proof
    assume "(r, c, v) \<in> set (candidate_list a k)"
    then show "r < length a \<and> c < length (a ! r) \<and> a ! r ! c = 0 \<and>
        v \<in> {1..length a} - row_vals a r - col_vals a c - block_vals a k (blk k r c)"
      by (auto simp: candidate_list_def set_nd_enumerate candidates_def
          simp del: upt_Suc split: if_splits)
  next
    assume a: "r < length a \<and> c < length (a ! r) \<and> a ! r ! c = 0 \<and>
        v \<in> {1..length a} - row_vals a r - col_vals a c - block_vals a k (blk k r c)"
    then have "((r, c), 0) \<in> set (nd_enumerate a)" by (auto simp: set_nd_enumerate)
    moreover have "(r, c, v) \<in> set (map (\<lambda>w. (r, c, w)) (candidates a k r c))"
      using a by (auto simp: candidates_def simp del: upt_Suc)
    ultimately show "(r, c, v) \<in> set (candidate_list a k)"
      unfolding candidate_list_def set_concat set_map by force
  qed
  then show ?thesis by auto
qed

lemma block_index_array:
  "grid_array h p = grid_array h' p' \<Longrightarrow> block_index h p = block_index h' p'"
  by (simp add: fun_eq_iff block_index_def block_size_def grid_size_def)

lemma possible_propositions_array:
  assumes "grid_array h p = grid_array h' p'"
  shows "possible_propositions h p = possible_propositions h' p'"
  unfolding possible_propositions_def grid_size_def grid_enumerate_def
    block_index_array [OF assms] assms ..

lemma numbered_distinct: "distinct (map fst (numbered k 1 xs))"
  unfolding numbered_keys by (simp add: distinct_map del: upt_Suc)

lemma numbered_lookup:
  assumes "i < length xs"
  shows "map_of (numbered k 1 xs) (1 + int i) =
     Some \<lparr>coords = \<lparr>row = fst (xs ! i), col = fst (snd (xs ! i)),
            block = blk k (fst (xs ! i)) (fst (snd (xs ! i)))\<rparr>,
          val = snd (snd (xs ! i)), prop_id = 1 + int i\<rparr>"
proof -
  have "numbered k 1 xs ! i \<in> set (numbered k 1 xs)" using assms by simp
  then show ?thesis
    unfolding numbered_nth [OF assms] by (rule map_of_is_SomeI [OF numbered_distinct])
qed

text \<open>
  Claim C2. For a valid grid with block size \<open>k\<close>, \<open>_possible_propositions\<close> raises nothing
  and returns the dictionary that numbers, from 1 on, the list of all pairs (empty cell,
  candidate value). That list holds exactly the pairs with the cell empty and the value in
  \<open>1..n\<close> but neither in the cell's row, nor in its column, nor in its block, each once,
  in row-major order of the cells and ascending value within a cell. The keys are
  \<open>1, 2, ..., m\<close> without gaps for \<open>m\<close> pairs, the key \<open>i + 1\<close> maps to the proposition of
  the \<open>i\<close>-th pair with that identifier, and the result depends on the array's contents
  only, so encoding the same grid again gives the same numbering.
\<close>

theorem proposition_space:
  fixes h :: heap and p :: SudokuGrid and k :: nat
  defines "pairs \<equiv> candidate_list (grid_array h p) k"
  assumes "valid_grid h p" and "k * k = grid_size h p"
  shows "possible_propositions h p = Inr (numbered k 1 pairs) \<and>
     set pairs =
       {(r, c, v). r < grid_size h p \<and> c < length (grid_array h p ! r) \<and>
          grid_array h p ! r ! c = 0 \<and>
          v \<in> {1..grid_size h p} - row_vals (grid_array h p) r - col_vals (grid_array h p) c
                - block_vals (grid_array h p) k (blk k r c)} \<and>
     sorted_wrt cell_value_less pairs \<and>
     map fst (numbered k 1 pairs) = map int [1..<Suc (length pairs)] \<and>
     (\<forall>i<length pairs.
        map_of (numbered k 1 pairs) (1 + int i) =
          Some \<lparr>coords = \<lparr>row = fst (pairs ! i), col = fst (snd (pairs ! i)),
                 block = blk k (fst (pairs ! i)) (fst (snd (pairs ! i)))\<rparr>,
               val = snd (snd (pairs ! i)), prop_id = 1 + int i\<rparr>) \<and>
     (\<forall>h' p'. grid_array h' p' = grid_array h p \<longrightarrow>
        possible_propositions h' p' = possible_propositions h p)"
  using possible_propositions_valid [OF assms(2,3)] set_candidate_list [of "grid_array h p" k]
    candidate_list_sorted [of "grid_array h p" k] numbered_keys [of k pairs]
    numbered_lookup [of _ pairs k] possible_propositions_array [of _ _ h p]
  unfolding pairs_def grid_size_def by blast

theorem proposition_space_witness:
  "valid_grid [[[1, 2, 3, 4], [3, 4, 1, 2], [2, 1, 4, 3], [4, 3, 0, 0]]] \<lparr>array = 0\<rparr> \<and>
   2 * 2 = grid_size [[[1, 2, 3, 4], [3, 4, 1, 2], [2, 1, 4, 3], [4, 3, 0, 0]]] \<lparr>array = 0\<rparr> \<and>
   possible_propositions [[[1, 2, 3, 4], [3, 4, 1, 2], [2, 1, 4, 3], [4, 3, 0, 0]]] \<lparr>array = 0\<rparr> =
     Inr [(1, \<lparr>coords = \<lparr>row = 3, col = 2, block = 3\<rparr>, val = 2, prop_id = 1\<rparr>),
          (2, \<lparr>coords = \<lparr>row = 3, col = 3, block = 3\<rparr>, val = 1, prop_id = 2\<rparr>)]"
proof -
  let ?h = "[[[1, 2, 3, 4], [3, 4, 1, 2], [2, 1, 4, 3], [4, 3, 0, 0::nat]]]"
  let ?p = "\<lparr>array = 0\<rparr>"
  have v: "valid_grid ?h ?p" by code_simp
  have k: "2 * 2 = grid_size ?h ?p" by code_simp
  have "possible_propositions ?h ?p = Inr (numbered 2 1 (candidate_list (grid_array ?h ?p) 2))"
    using proposition_space [OF v k] by blast
  moreover have "numbered 2 1 (candidate_list (grid_array ?h ?p) 2) =
     [(1, \<lparr>coords = \<lparr>row = 3, col = 2, block = 3\<rparr>, val = 2, prop_id = 1\<rparr>),
      (2, \<lparr>coords = \<lparr>row = 3, col = 3, block = 3\<rparr>, val = 1, prop_id = 2\<rparr>)]"
    by code_simp
  ultimately show ?thesis using v k by simp
qed

section \<open>Decoding\<close>

lemma setitem_in_range:
  assumes "r < length (grid_array h g)" "c < length (grid_array h g ! r)" "int v \<le> uint_max"
  shows "setitem h g (int r, int c) v =
     Inr (h[array g := (grid_array h g)[r := (grid_array h g ! r)[c := v]]])"
  using assms by (simp add: setitem_def norm_index_def Let_def)

lemma selected_Nil [simp]: "selected props [] = []"
  by (simp add: selected_def)

lemma selected_Cons:
  "selected props (pid # results) =
     (if 0 < pid \<and> pid \<in> fst ` set props then the (map_of props pid) # selected props results
      else selected props results)"
  by (simp add: selected_def)

lemma decode_loop_eq:
  assumes "array g < length h"
    and "length (h ! array g) = n"
    and "\<forall>r<n. length (h ! array g ! r) = n"
    and "\<forall>(i, q) \<in> set props.
           row (coords q) < n \<and> col (coords q) < n \<and> int (val q) \<le> uint_max"
  shows "decode_loop props g results h =
     Inr (h[array g := foldl write_cell (h ! array g) (selected props results)])"
  using assms
proof (induction results arbitrary: h)
  case Nil
  then show ?case by simp
next
  case (Cons pid results)
  show ?case
  proof (cases "0 < pid \<and> pid \<in> fst ` set props")
    case False
    then have d: "decode_loop props g (pid # results) h = decode_loop props g results h"
      by auto
    have s: "selected props (pid # results) = selected props results"
      using False by (simp add: selected_Cons)
    show ?thesis unfolding d s by (rule Cons.IH [OF Cons.prems])
  next
    case True
    then obtain q where q: "map_of props pid = Some q"
      by (metis domD dom_map_of_conv_image_fst)
    then have "(pid, q) \<in> set props" by (rule map_of_SomeD)
    then have rc: "row (coords q) < n" "col (coords q) < n" "int (val q) \<le> uint_max"
      using Cons.prems(4) by auto
    let ?a = "h ! array g"
    let ?h' = "h[array g := write_cell ?a q]"
    have si: "setitem h g (int (row (coords q)), int (col (coords q))) (val q) = Inr ?h'"
      using rc Cons.prems(2,3)
      by (simp add: setitem_in_range grid_array_def write_cell_def)
    have step: "decode_loop props g (pid # results) h = decode_loop props g results ?h'"
      using True q si by simp
    have a': "?h' ! array g = write_cell ?a q" using Cons.prems(1) by simp
    have p1: "array g < length ?h'" using Cons.prems(1) by simp
    have p2: "length (?h' ! array g) = n"
      unfolding a' using Cons.prems(2) by (simp add: write_cell_def)
    have p3: "\<forall>r<n. length (?h' ! array g ! r) = n"
      unfolding a' using Cons.prems(2,3) rc by (auto simp: write_cell_def nth_list_update)
    show ?thesis
      unfolding step Cons.IH [OF p1 p2 p3 Cons.prems(4)] a'
      using True q by (simp add: selected_Cons)
  qed
qed


lemma numbered_set:
  assumes "(i, q) \<in> set (numbered k nid xs)"
  shows "\<exists>r c v. (r, c, v) \<in> set xs \<and> coords q = \<lparr>row = r, col = c, block = blk k r c\<rparr> \<and>
           val q = v \<and> prop_id q = i \<and> nid \<le> i"
proof -
  from assms obtain j where j: "j < length xs" "numbered k nid xs ! j = (i, q)"
    by (auto simp: in_set_conv_nth)
  obtain r c v where x: "xs ! j = (r, c, v)" by (metis prod.exhaust)
  have "(r, c, v) \<in> set xs" using j(1) x by (metis nth_mem)
  then show ?thesis using j(2) x unfolding numbered_nth [OF j(1)] by auto
qed

lemma valid_has_root: "valid_grid h p \<Longrightarrow> \<exists>k. k * k = grid_size h p"
  by (auto simp: valid_grid_def valid_array_def grid_size_def)

lemma encode_valid:
  assumes "valid_grid h p" "k * k = grid_size h p"
  shows "encode h p =
     Inr \<lparr>cnf = cell_clauses (dict_values (numbered k 1 (candidate_list (grid_array h p) k)))
              @ row_clauses (dict_values (numbered k 1 (candidate_list (grid_array h p) k)))
              @ col_clauses (dict_values (numbered k 1 (candidate_list (grid_array h p) k)))
              @ block_clauses (dict_values (numbered k 1 (candidate_list (grid_array h p) k))),
          propositions = numbered k 1 (candidate_list (grid_array h p) k), puzzle = p\<rparr>"
  unfolding encode_eq possible_propositions_valid [OF assms] by simp

lemma encoded_propositions:
  assumes "valid_grid h p" "encode h p = Inr enc" "(i, q) \<in> set (propositions enc)"
  shows "row (coords q) < grid_size h p \<and> col (coords q) < grid_size h p \<and>
         grid_array h p ! row (coords q) ! col (coords q) = 0 \<and>
         1 \<le> val q \<and> val q \<le> grid_size h p \<and> prop_id q = i \<and> 1 \<le> i"
proof -
  obtain k where k: "k * k = grid_size h p" using valid_has_root [OF assms(1)] by blast
  let ?a = "grid_array h p"
  have "propositions enc = numbered k 1 (candidate_list ?a k)"
    using assms(2) unfolding encode_valid [OF assms(1) k] by auto
  then obtain r c v where rcv: "(r, c, v) \<in> set (candidate_list ?a k)"
      "coords q = \<lparr>row = r, col = c, block = blk k r c\<rparr>" "val q = v" "prop_id q = i" "1 \<le> i"
    using numbered_set [of i q k 1 "candidate_list ?a k"] assms(3) by auto
  have va: "valid_array ?a" using assms(1) by (simp add: valid_grid_def)
  from rcv(1) have r: "r < length ?a" "c < length (?a ! r)" "?a ! r ! c = 0" "1 \<le> v" "v \<le> length ?a"
    unfolding set_candidate_list by auto
  then have "c < length ?a" using valid_row_length [OF va r(1)] by simp
  then show ?thesis using r rcv by (simp add: grid_size_def)
qed

lemma decode_encoded:
  assumes "valid_grid h p" "encode h p = Inr enc"
  shows "decode h enc results =
     Inr (\<lparr>array = length h\<rparr>,
          h @ [foldl write_cell (grid_array h p) (selected (propositions enc) results)])"
proof -
  let ?a = "grid_array h p"
  let ?n = "length ?a"
  let ?g = "\<lparr>array = length h\<rparr>"
  let ?h1 = "h @ [?a]"
  have pz: "puzzle enc = p" using assms(2) by (auto simp: encode_eq split: sum.splits)
  have va: "valid_array ?a" using assms(1) by (simp add: valid_grid_def)
  have 1: "array ?g < length ?h1" by simp
  have 2: "length (?h1 ! array ?g) = ?n" by simp
  have 3: "\<forall>r<?n. length (?h1 ! array ?g ! r) = ?n"
    using valid_row_length [OF va] by simp
  have le: "int ?n \<le> uint_max" using assms(1) by (simp add: valid_grid_def grid_size_def)
  have 4: "\<forall>(i, q) \<in> set (propositions enc).
             row (coords q) < ?n \<and> col (coords q) < ?n \<and> int (val q) \<le> uint_max"
  proof (clarify, intro conjI)
    fix i q assume m: "(i, q) \<in> set (propositions enc)"
    note e = encoded_propositions [OF assms m]
    show "row (coords q) < ?n" using e by (simp add: grid_size_def)
    show "col (coords q) < ?n" using e by (simp add: grid_size_def)
    show "int (val q) \<le> uint_max" using e le by (simp add: grid_size_def)
  qed
  have "decode_loop (propositions enc) ?g results ?h1 =
      Inr (?h1[array ?g := foldl write_cell (?h1 ! array ?g) (selected (propositions enc) results)])"
    by (rule decode_loop_eq [OF 1 2 3 4])
  then show ?thesis by (simp add: decode_def copy_def pz)
qed

text \<open>
  Claim C5. For the encoding of a valid puzzle and every result list, \<open>decode\<close> raises
  nothing. It returns a grid at a fresh reference whose array is the puzzle's array with,
  for each positive identifier of the list that is a key of the dictionary, in the order
  of the list, the proposition's value written at the proposition's coordinates;
  identifiers that are not positive or not keys contribute nothing. Every array that
  was in the heap before, the puzzle's among them, is unchanged.
\<close>

theorem decode_postcondition:
  assumes "valid_grid h p" and "encode h p = Inr enc"
  shows "decode h enc results =
     Inr (\<lparr>array = length h\<rparr>,
          h @ [foldl write_cell (grid_array h p) (selected (propositions enc) results)]) \<and>
     selected (propositions enc) results =
       map (\<lambda>pid. the (map_of (propositions enc) pid))
         (filter (\<lambda>pid. 0 < pid \<and> pid \<in> fst ` set (propositions enc)) results) \<and>
     puzzle enc = p \<and> array p \<noteq> length h \<and>
     (\<forall>g h'. decode h enc results = Inr (g, h') \<longrightarrow>
        (\<forall>g'. array g' < length h \<longrightarrow> grid_array h' g' = grid_array h g'))"
proof -
  have "puzzle enc = p" using assms(2) by (auto simp: encode_eq split: sum.splits)
  moreover have "array p \<noteq> length h" using assms(1) by (simp add: valid_grid_def)
  ultimately show ?thesis
    using decode_encoded [OF assms, of results]
    by (auto simp: selected_def grid_array_def nth_append)
qed

theorem decode_postcondition_witness:
  "valid_grid [[[0, 0, 3, 4], [3, 4, 1, 2], [0, 0, 4, 3], [4, 3, 2, 1]]] \<lparr>array = 0\<rparr> \<and>
   (\<exists>enc. encode [[[0, 0, 3, 4], [3, 4, 1, 2], [0, 0, 4, 3], [4, 3, 2, 1]]] \<lparr>array = 0\<rparr> = Inr enc \<and>
      decode [[[0, 0, 3, 4], [3, 4, 1, 2], [0, 0, 4, 3], [4, 3, 2, 1]]] enc
        [1, - 2, - 3, 4, - 5, 6, 0, 9, - 1] =
      Inr (\<lparr>array = 1\<rparr>,
           [[[0, 0, 3, 4], [3, 4, 1, 2], [0, 0, 4, 3], [4, 3, 2, 1]],
            [[1, 2, 3, 4], [3, 4, 1, 2], [2, 0, 4, 3], [4, 3, 2, 1]]]))"
proof -
  let ?h = "[[[0, 0, 3, 4], [3, 4, 1, 2], [0, 0, 4, 3], [4, 3, 2, 1::nat]]]"
  let ?p = "\<lparr>array = 0\<rparr>"
  let ?enc = "projr (encode ?h ?p)"
  have v: "valid_grid ?h ?p" by code_simp
  have e: "encode ?h ?p = Inr ?enc" by code_simp
  have "decode ?h ?enc [1, - 2, - 3, 4, - 5, 6, 0, 9, - 1] =
     Inr (\<lparr>array = length ?h\<rparr>,
          ?h @ [foldl write_cell (grid_array ?h ?p)
                  (selected (propositions ?enc) [1, - 2, - 3, 4, - 5, 6, 0, 9, - 1])])"
    using decode_postcondition [OF v e] by blast
  also have "\<dots> = Inr (\<lparr>array = 1\<rparr>,
           [[[0, 0, 3, 4], [3, 4, 1, 2], [0, 0, 4, 3], [4, 3, 2, 1]],
            [[1, 2, 3, 4], [3, 4, 1, 2], [2, 0, 4, 3], [4, 3, 2, 1]]])"
    by code_simp
  finally show ?thesis using v e by blast
qed

section \<open>Well-formed encodings and the outcomes of the solver\<close>

lemma in_at_least_one_clauses:
  "clause \<in> set (at_least_one_clauses g) \<longleftrightarrow> g \<noteq> [] \<and> clause = map prop_id g"
  by (auto simp: at_least_one_clauses_def)

lemma in_at_most_one_clauses:
  "clause \<in> set (at_most_one_clauses g) \<longleftrightarrow>
     (\<exists>i j. i < j \<and> j < length g \<and> clause = [- prop_id (g ! i), - prop_id (g ! j)])"
proof
  assume "clause \<in> set (at_most_one_clauses g)"
  then show "\<exists>i j. i < j \<and> j < length g \<and> clause = [- prop_id (g ! i), - prop_id (g ! j)]"
    unfolding at_most_one_clauses_def set_map set_combinations2 by auto
next
  assume "\<exists>i j. i < j \<and> j < length g \<and> clause = [- prop_id (g ! i), - prop_id (g ! j)]"
  then obtain i j where ij: "i < j" "j < length g"
    "clause = [- prop_id (g ! i), - prop_id (g ! j)]" by blast
  then have "(g ! i, g ! j) \<in> set (combinations2 g)"
    unfolding set_combinations2 by blast
  then have "(\<lambda>(p, q). [- prop_id p, - prop_id q]) (g ! i, g ! j) \<in> set (at_most_one_clauses g)"
    unfolding at_most_one_clauses_def set_map by (rule imageI)
  then show "clause \<in> set (at_most_one_clauses g)" using ij(3) by simp
qed

lemma in_exactly_one_clauses:
  "clause \<in> set (exactly_one_clauses g) \<longleftrightarrow>
     clause \<in> set (at_least_one_clauses g) \<or> clause \<in> set (at_most_one_clauses g)"
  by (auto simp: exactly_one_clauses_def in_at_most_one_clauses at_least_one_clauses_def)

lemma in_group_by_values:
  "g \<in> set (dict_values (group_by ps key)) \<longleftrightarrow>
     (\<exists>x \<in> set ps. g = filter (\<lambda>y. key y = key x) ps)"
  unfolding dict_values_def set_map group_by_groups by force





lemma encode_total:
  assumes "valid_grid h p"
  shows "\<exists>enc. encode h p = Inr enc"
proof -
  obtain k where k: "k * k = grid_size h p" using valid_has_root [OF assms] by blast
  show ?thesis unfolding encode_valid [OF assms k] by blast
qed

lemma encode_cnf:
  assumes "encode h p = Inr enc"
  shows "cnf enc = cell_clauses (dict_values (propositions enc))
            @ row_clauses (dict_values (propositions enc))
            @ col_clauses (dict_values (propositions enc))
            @ block_clauses (dict_values (propositions enc)) \<and> puzzle enc = p"
  using assms unfolding encode_eq by (auto split: sum.splits)





lemma run_algorithm_valid:
  assumes "valid_grid h p" "encode h p = Inr enc"
  shows "run_algorithm solver h p t =
     (case fst (solver (cnf enc) t) of
        None \<Rightarrow> Inl TimeoutError
      | Some False \<Rightarrow> Inr (None, h)
      | Some True \<Rightarrow>
          Inr (Some \<lparr>array = length h\<rparr>,
               h @ [foldl write_cell (grid_array h p)
                      (selected (propositions enc) (snd (solver (cnf enc) t)))]))"
proof -
  obtain status model where sm: "solver (cnf enc) t = (status, model)" by (cases "solver (cnf enc) t")
  show ?thesis
    unfolding run_algorithm_def using assms(2) sm decode_encoded [OF assms, of model]
    by (simp split: option.splits bool.splits)
qed

text \<open>
  Claim C6. For a valid puzzle, \<open>run_algorithm\<close> raises exactly when the engine was
  interrupted, and what it raises then is TimeoutError; it returns no grid exactly when
  the engine reported the formula unsatisfiable, leaving the heap as it was; and it
  returns a grid exactly when the engine reported the formula satisfiable, the grid
  being the one \<open>decode\<close> makes of the engine's model.
\<close>

theorem outcome_separation:
  assumes "valid_grid h p"
  shows "\<exists>enc. encode h p = Inr enc \<and>
     (\<forall>solver t.
        ((\<exists>e. run_algorithm solver h p t = Inl e) \<longleftrightarrow> fst (solver (cnf enc) t) = None) \<and>
        (run_algorithm solver h p t = Inl TimeoutError \<longleftrightarrow> fst (solver (cnf enc) t) = None) \<and>
        ((\<exists>h'. run_algorithm solver h p t = Inr (None, h')) \<longleftrightarrow>
           fst (solver (cnf enc) t) = Some False) \<and>
        (run_algorithm solver h p t = Inr (None, h) \<longleftrightarrow>
           fst (solver (cnf enc) t) = Some False) \<and>
        ((\<exists>g h'. run_algorithm solver h p t = Inr (Some g, h')) \<longleftrightarrow>
           fst (solver (cnf enc) t) = Some True) \<and>
        ((\<exists>g h'. decode h enc (snd (solver (cnf enc) t)) = Inr (g, h') \<and>
             run_algorithm solver h p t = Inr (Some g, h')) \<longleftrightarrow>
           fst (solver (cnf enc) t) = Some True))"
proof -
  obtain enc where e: "encode h p = Inr enc" using encode_total [OF assms] by blast
  have "((\<exists>e. run_algorithm solver h p t = Inl e) \<longleftrightarrow> fst (solver (cnf enc) t) = None) \<and>
        (run_algorithm solver h p t = Inl TimeoutError \<longleftrightarrow> fst (solver (cnf enc) t) = None) \<and>
        ((\<exists>h'. run_algorithm solver h p t = Inr (None, h')) \<longleftrightarrow>
           fst (solver (cnf enc) t) = Some False) \<and>
        (run_algorithm solver h p t = Inr (None, h) \<longleftrightarrow>
           fst (solver (cnf enc) t) = Some False) \<and>
        ((\<exists>g h'. run_algorithm solver h p t = Inr (Some g, h')) \<longleftrightarrow>
           fst (solver (cnf enc) t) = Some True) \<and>
        ((\<exists>g h'. decode h enc (snd (solver (cnf enc) t)) = Inr (g, h') \<and>
             run_algorithm solver h p t = Inr (Some g, h')) \<longleftrightarrow>
           fst (solver (cnf enc) t) = Some True)" for solver :: "'t engine" and t
  proof (cases "fst (solver (cnf enc) t)")
    case None
    then show ?thesis
      unfolding run_algorithm_valid [OF assms e] by simp
  next
    case (Some b)
    then show ?thesis
      unfolding run_algorithm_valid [OF assms e]
        decode_encoded [OF assms e, of "snd (solver (cnf enc) t)"]
      by (cases b) simp_all
  qed
  note main = this
  show ?thesis
    by (rule exI [of _ enc], rule conjI, rule e, (rule allI)+, rule main)
qed

theorem outcome_separation_witness:
  "valid_grid [[[0, 0, 3, 4], [3, 4, 1, 2], [0, 0, 4, 3], [4, 3, 2, 1]]] \<lparr>array = 0\<rparr> \<and>
   run_algorithm (\<lambda>formula t. (None, []))
     [[[0, 0, 3, 4], [3, 4, 1, 2], [0, 0, 4, 3], [4, 3, 2, 1]]] \<lparr>array = 0\<rparr> (0 :: nat) =
     Inl TimeoutError \<and>
   run_algorithm (\<lambda>formula t. (Some False, []))
     [[[0, 0, 3, 4], [3, 4, 1, 2], [0, 0, 4, 3], [4, 3, 2, 1]]] \<lparr>array = 0\<rparr> (0 :: nat) =
     Inr (None, [[[0, 0, 3, 4], [3, 4, 1, 2], [0, 0, 4, 3], [4, 3, 2, 1]]]) \<and>
   (\<exists>g h'. run_algorithm (\<lambda>formula t. (Some True, [1, - 2, - 3, 4, - 5, 6, 7, - 8]))
     [[[0, 0, 3, 4], [3, 4, 1, 2], [0, 0, 4, 3], [4, 3, 2, 1]]] \<lparr>array = 0\<rparr> (0 :: nat) =
     Inr (Some g, h'))"
proof -
  let ?h = "[[[0, 0, 3, 4], [3, 4, 1, 2], [0, 0, 4, 3], [4, 3, 2, 1::nat]]]"
  have v: "valid_grid ?h \<lparr>array = 0\<rparr>" by code_simp
  have "\<exists>enc. encode ?h \<lparr>array = 0\<rparr> = Inr enc \<and>
     (\<forall>(solver :: nat engine) t.
        ((\<exists>e. run_algorithm solver ?h \<lparr>array = 0\<rparr> t = Inl e) \<longleftrightarrow> fst (solver (cnf enc) t) = None) \<and>
        (run_algorithm solver ?h \<lparr>array = 0\<rparr> t = Inl TimeoutError \<longleftrightarrow> fst (solver (cnf enc) t) = None) \<and>
        ((\<exists>h'. run_algorithm solver ?h \<lparr>array = 0\<rparr> t = Inr (None, h')) \<longleftrightarrow>
           fst (solver (cnf enc) t) = Some False) \<and>
        (run_algorithm solver ?h \<lparr>array = 0\<rparr> t = Inr (None, ?h) \<longleftrightarrow>
           fst (solver (cnf enc) t) = Some False) \<and>
        ((\<exists>g h'. run_algorithm solver ?h \<lparr>array = 0\<rparr> t = Inr (Some g, h')) \<longleftrightarrow>
           fst (solver (cnf enc) t) = Some True) \<and>
        ((\<exists>g h'. decode ?h enc (snd (solver (cnf enc) t)) = Inr (g, h') \<and>
             run_algorithm solver ?h \<lparr>array = 0\<rparr> t = Inr (Some g, h')) \<longleftrightarrow>
           fst (solver (cnf enc) t) = Some True))" (is "\<exists>enc. ?Q enc")
    by (rule outcome_separation [OF v])
  then obtain enc where q: "?Q enc" ..
  note sep = q [THEN conjunct2, rule_format]
  have 1: "run_algorithm (\<lambda>formula t. (None, [])) ?h \<lparr>array = 0\<rparr> (0 :: nat) = Inl TimeoutError"
    using sep [of "\<lambda>formula t. (None, [])" 0] by simp
  have 2: "run_algorithm (\<lambda>formula t. (Some False, [])) ?h \<lparr>array = 0\<rparr> (0 :: nat) = Inr (None, ?h)"
    using sep [of "\<lambda>formula t. (Some False, [])" 0] by simp
  have 3: "\<exists>g h'. run_algorithm (\<lambda>formula t. (Some True, [1, - 2, - 3, 4, - 5, 6, 7, - 8]))
      ?h \<lparr>array = 0\<rparr> (0 :: nat) = Inr (Some g, h')"
    using sep [of "\<lambda>formula t. (Some True, [1, - 2, - 3, 4, - 5, 6, 7, - 8])" 0]
    by simp
  show ?thesis using v 1 2 3 by (intro conjI)
qed

section \<open>Soundness of solving and decoding\<close>

lemma write_cell_shape:
  "length (write_cell a q) = length a \<and> length (write_cell a q ! r) = length (a ! r)"
proof (cases "row (coords q) < length a")
  case True
  then show ?thesis by (simp add: write_cell_def nth_list_update)
next
  case False
  then have "a[row (coords q) := (a ! row (coords q))[col (coords q) := val q]] = a"
    by (intro list_update_beyond) simp
  then show ?thesis by (simp add: write_cell_def)
qed

lemma write_cells_shape:
  "length (foldl write_cell a qs) = length a \<and>
   length (foldl write_cell a qs ! r) = length (a ! r)"
  by (induction qs rule: rev_induct) (simp_all add: write_cell_shape)

lemma write_cell_nth:
  assumes "row (coords q) < length a" "col (coords q) < length (a ! row (coords q))"
  shows "write_cell a q ! r ! c =
     (if row (coords q) = r \<and> col (coords q) = c then val q else a ! r ! c)"
  using assms by (auto simp: write_cell_def nth_list_update)

lemma write_cells_value:
  assumes "\<forall>q \<in> set qs. row (coords q) < length a \<and> col (coords q) < length (a ! row (coords q))"
  shows "(if \<exists>q \<in> set qs. row (coords q) = r \<and> col (coords q) = c
          then \<exists>q \<in> set qs. row (coords q) = r \<and> col (coords q) = c \<and>
                 foldl write_cell a qs ! r ! c = val q
          else foldl write_cell a qs ! r ! c = a ! r ! c)"
  using assms
proof (induction qs rule: rev_induct)
  case Nil
  then show ?case by simp
next
  case (snoc q qs)
  let ?f = "foldl write_cell a qs"
  have rng: "row (coords q) < length ?f" "col (coords q) < length (?f ! row (coords q))"
    using snoc.prems by (simp_all add: write_cells_shape)
  have v: "foldl write_cell a (qs @ [q]) ! r ! c =
      (if row (coords q) = r \<and> col (coords q) = c then val q else ?f ! r ! c)"
    using write_cell_nth [OF rng] by simp
  have IH: "(if \<exists>q \<in> set qs. row (coords q) = r \<and> col (coords q) = c
          then \<exists>q \<in> set qs. row (coords q) = r \<and> col (coords q) = c \<and> ?f ! r ! c = val q
          else ?f ! r ! c = a ! r ! c)"
    using snoc.IH snoc.prems by simp
  show ?case
  proof (cases "row (coords q) = r \<and> col (coords q) = c")
    case True
    then show ?thesis unfolding v by auto
  next
    case False
    then show ?thesis using IH unfolding v by (auto split: if_splits)
  qed
qed

lemma numbered_complete:
  assumes "(r, c, v) \<in> set xs"
  shows "\<exists>i. (i, \<lparr>coords = \<lparr>row = r, col = c, block = blk k r c\<rparr>, val = v, prop_id = i\<rparr>)
           \<in> set (numbered k nid xs)"
proof -
  from assms obtain j where j: "j < length xs" "xs ! j = (r, c, v)"
    by (auto simp: in_set_conv_nth)
  have "numbered k nid xs ! j \<in> set (numbered k nid xs)" using j(1) by simp
  then show ?thesis unfolding numbered_nth [OF j(1)] j(2) by auto
qed

lemma encoded_propositions_eq:
  assumes "valid_grid h p" "k * k = grid_size h p" "encode h p = Inr enc"
  shows "propositions enc = numbered k 1 (candidate_list (grid_array h p) k)"
  using assms(3) unfolding encode_valid [OF assms(1,2)] by auto

lemma encoded_proposition_detail:
  assumes "valid_grid h p" "k * k = grid_size h p" "encode h p = Inr enc"
    and "(i, q) \<in> set (propositions enc)"
  shows "(row (coords q), col (coords q), val q) \<in> set (candidate_list (grid_array h p) k) \<and>
         block (coords q) = blk k (row (coords q)) (col (coords q)) \<and> prop_id q = i \<and> 1 \<le> i"
  using numbered_set [of i q k 1 "candidate_list (grid_array h p) k"] assms(4)
  unfolding encoded_propositions_eq [OF assms(1-3)] by auto

lemma encoded_keys_distinct:
  assumes "valid_grid h p" "encode h p = Inr enc"
  shows "distinct (map fst (propositions enc))"
proof -
  obtain k where k: "k * k = grid_size h p" using valid_has_root [OF assms(1)] by blast
  show ?thesis unfolding encoded_propositions_eq [OF assms(1) k assms(2)]
    by (rule numbered_distinct)
qed

lemma selected_set:
  assumes "distinct (map fst props)" "\<forall>(i, q) \<in> set props. 0 < i"
  shows "set (selected props results) = {q. \<exists>i. (i, q) \<in> set props \<and> i \<in> set results}"
proof (intro equalityI subsetI)
  fix q assume "q \<in> set (selected props results)"
  then obtain pid where pid: "pid \<in> set results" "0 < pid" "pid \<in> fst ` set props"
      "q = the (map_of props pid)"
    by (auto simp: selected_def)
  then obtain q' where "(pid, q') \<in> set props" by auto
  then have "map_of props pid = Some q'" using assms(1) by (rule map_of_is_SomeI [rotated])
  then show "q \<in> {q. \<exists>i. (i, q) \<in> set props \<and> i \<in> set results}"
    using pid \<open>(pid, q') \<in> set props\<close> by auto
next
  fix q assume "q \<in> {q. \<exists>i. (i, q) \<in> set props \<and> i \<in> set results}"
  then obtain i where i: "(i, q) \<in> set props" "i \<in> set results" by blast
  then have "0 < i" using assms(2) by auto
  moreover have "map_of props i = Some q" using assms(1) i(1) by (rule map_of_is_SomeI)
  moreover have "i \<in> fst ` set props" using i(1) by force
  ultimately have "i \<in> set (filter (\<lambda>pid. 0 < pid \<and> pid \<in> fst ` set props) results)"
    using i(2) by simp
  then have "the (map_of props i) \<in> set (selected props results)"
    unfolding selected_def set_map by (rule imageI)
  then show "q \<in> set (selected props results)" using \<open>map_of props i = Some q\<close> by simp
qed

lemma at_most_one_sound:
  assumes "is_model results formula"
    and "set (at_most_one_clauses (filter (\<lambda>y. key y = key q) ps)) \<subseteq> set formula"
    and "q \<in> set ps" "q' \<in> set ps" "q \<noteq> q'" "key q' = key q"
  shows "\<not> (prop_id q \<in> set results \<and> prop_id q' \<in> set results)"
proof
  assume both: "prop_id q \<in> set results \<and> prop_id q' \<in> set results"
  let ?g = "filter (\<lambda>y. key y = key q) ps"
  have "q \<in> set ?g" "q' \<in> set ?g" using assms(3,4,6) by simp_all
  then obtain i j where ij: "i < length ?g" "?g ! i = q" "j < length ?g" "?g ! j = q'"
    by (metis in_set_conv_nth)
  then have "i \<noteq> j" using assms(5) by auto
  then consider "i < j" | "j < i" by linarith
  then have "[- prop_id q, - prop_id q'] \<in> set formula \<or> [- prop_id q', - prop_id q] \<in> set formula"
  proof cases
    case 1
    then have "[- prop_id (?g ! i), - prop_id (?g ! j)] \<in> set (at_most_one_clauses ?g)"
      unfolding in_at_most_one_clauses using ij(3) by blast
    then show ?thesis using assms(2) ij by auto
  next
    case 2
    then have "[- prop_id (?g ! j), - prop_id (?g ! i)] \<in> set (at_most_one_clauses ?g)"
      unfolding in_at_most_one_clauses using ij(1) by blast
    then show ?thesis using assms(2) ij by auto
  qed
  then have "- prop_id q \<in> set results \<or> - prop_id q' \<in> set results"
    using assms(1) unfolding is_model_def by fastforce
  then show False using both assms(1) unfolding is_model_def by fastforce
qed

lemma group_clauses_subset:
  assumes "x \<in> set ps"
  shows "set (F (filter (\<lambda>y. key y = key x) ps)) \<subseteq>
         set (concat (map F (dict_values (group_by ps key))))"
proof -
  have "filter (\<lambda>y. key y = key x) ps \<in> set (dict_values (group_by ps key))"
    unfolding in_group_by_values using assms by blast
  then show ?thesis by auto
qed

lemma cell_group_at_least_one:
  assumes "x \<in> set ps"
  shows "map prop_id (filter (\<lambda>y. coords y = coords x) ps) \<in> set (cell_clauses ps)"
proof -
  let ?g = "filter (\<lambda>y. coords y = coords x) ps"
  have "x \<in> set ?g" using assms by simp
  then have "?g \<noteq> []" by (metis empty_iff empty_set)
  then have "map prop_id ?g \<in> set (exactly_one_clauses ?g)"
    unfolding in_exactly_one_clauses in_at_least_one_clauses by simp
  then show ?thesis
    using group_clauses_subset [OF assms, of exactly_one_clauses coords]
    unfolding cell_clauses_def by blast
qed

lemma cell_group_at_most_one:
  assumes "x \<in> set ps"
  shows "set (at_most_one_clauses (filter (\<lambda>y. coords y = coords x) ps)) \<subseteq> set (cell_clauses ps)"
proof -
  let ?g = "filter (\<lambda>y. coords y = coords x) ps"
  have "set (at_most_one_clauses ?g) \<subseteq> set (exactly_one_clauses ?g)"
    by (auto simp: in_exactly_one_clauses)
  then show ?thesis
    using group_clauses_subset [OF assms, of exactly_one_clauses coords]
    unfolding cell_clauses_def by blast
qed

lemma model_cell_has_true:
  assumes "is_model results (cell_clauses ps @ rest)" "x \<in> set ps"
  shows "\<exists>q \<in> set ps. coords q = coords x \<and> prop_id q \<in> set results"
proof -
  let ?g = "filter (\<lambda>y. coords y = coords x) ps"
  have "map prop_id ?g \<in> set (cell_clauses ps @ rest)"
    using cell_group_at_least_one [OF assms(2)] by simp
  then obtain l where "l \<in> set (map prop_id ?g)" "l \<in> set results"
    using assms(1) unfolding is_model_def by blast
  then show ?thesis by auto
qed

lemma model_unique:
  assumes "is_model results
      (cell_clauses ps @ row_clauses ps @ col_clauses ps @ block_clauses ps)"
    and "q \<in> set ps" "q' \<in> set ps" "q \<noteq> q'"
    and "prop_id q \<in> set results" "prop_id q' \<in> set results"
  shows "coords q' \<noteq> coords q \<and>
         (row (coords q'), val q') \<noteq> (row (coords q), val q) \<and>
         (col (coords q'), val q') \<noteq> (col (coords q), val q) \<and>
         (block (coords q'), val q') \<noteq> (block (coords q), val q)"
proof -
  let ?F = "cell_clauses ps @ row_clauses ps @ col_clauses ps @ block_clauses ps"
  have 1: "set (at_most_one_clauses (filter (\<lambda>y. coords y = coords q) ps)) \<subseteq> set ?F"
    using cell_group_at_most_one [OF assms(2)] by auto
  have 2: "set (at_most_one_clauses
       (filter (\<lambda>y. (row (coords y), val y) = (row (coords q), val q)) ps)) \<subseteq> set ?F"
    using group_clauses_subset [OF assms(2), of at_most_one_clauses "\<lambda>p. (row (coords p), val p)"]
    unfolding row_clauses_def by auto
  have 3: "set (at_most_one_clauses
       (filter (\<lambda>y. (col (coords y), val y) = (col (coords q), val q)) ps)) \<subseteq> set ?F"
    using group_clauses_subset [OF assms(2), of at_most_one_clauses "\<lambda>p. (col (coords p), val p)"]
    unfolding col_clauses_def by auto
  have 4: "set (at_most_one_clauses
       (filter (\<lambda>y. (block (coords y), val y) = (block (coords q), val q)) ps)) \<subseteq> set ?F"
    using group_clauses_subset [OF assms(2), of at_most_one_clauses "\<lambda>p. (block (coords p), val p)"]
    unfolding block_clauses_def by auto
  show ?thesis
    using at_most_one_sound [OF assms(1) 1 assms(2,3,4)]
      at_most_one_sound [OF assms(1) 2 assms(2,3,4)]
      at_most_one_sound [OF assms(1) 3 assms(2,3,4)]
      at_most_one_sound [OF assms(1) 4 assms(2,3,4)]
      assms(5,6)
    by blast
qed

lemma in_candidate_list:
  "(r, c, v) \<in> set (candidate_list a k) \<longleftrightarrow>
     r < length a \<and> c < length (a ! r) \<and> a ! r ! c = 0 \<and> v \<in> set (candidates a k r c)"
  unfolding set_candidate_list by (auto simp: candidates_def simp del: upt_Suc)

lemma in_candidates:
  "v \<in> set (candidates a k r c) \<longleftrightarrow>
     1 \<le> v \<and> v \<le> length a \<and> v \<notin> row_vals a r \<and> v \<notin> col_vals a c \<and>
     v \<notin> block_vals a k (blk k r c)"
  by (auto simp: candidates_def simp del: upt_Suc)

lemma decoded_cell:
  fixes h :: heap and results :: "int list"
  defines "f \<equiv> \<lambda>h p enc. foldl write_cell (grid_array h p) (selected (propositions enc) results)"
  assumes "valid_grid h p" "k * k = grid_size h p" "encode h p = Inr enc"
    and "r < grid_size h p" "c < grid_size h p"
  shows "(grid_array h p ! r ! c \<noteq> 0 \<longrightarrow> f h p enc ! r ! c = grid_array h p ! r ! c) \<and>
     (is_model results (cnf enc) \<and> grid_array h p ! r ! c = 0 \<and>
        candidates (grid_array h p) k r c \<noteq> [] \<longrightarrow>
      (\<exists>i q. (i, q) \<in> set (propositions enc) \<and> i \<in> set results \<and>
         row (coords q) = r \<and> col (coords q) = c \<and> f h p enc ! r ! c = val q))"
proof -
  let ?a = "grid_array h p"
  let ?props = "propositions enc"
  let ?qs = "selected ?props results"
  have va: "valid_array ?a" using assms(2) by (simp add: valid_grid_def)
  have n: "grid_size h p = length ?a" by (simp add: grid_size_def)
  have pos: "\<forall>(i, q) \<in> set ?props. 0 < i"
    using encoded_propositions [OF assms(2,4)] by fastforce
  have S: "set ?qs = {q. \<exists>i. (i, q) \<in> set ?props \<and> i \<in> set results}"
    by (rule selected_set [OF encoded_keys_distinct [OF assms(2,4)] pos])
  have rng: "\<forall>q \<in> set ?qs. row (coords q) < length ?a \<and> col (coords q) < length (?a ! row (coords q))"
  proof
    fix q assume "q \<in> set ?qs"
    then obtain i where "(i, q) \<in> set ?props" unfolding S by blast
    from encoded_propositions [OF assms(2,4) this]
    have "row (coords q) < length ?a" "col (coords q) < length ?a" unfolding n by simp_all
    then show "row (coords q) < length ?a \<and> col (coords q) < length (?a ! row (coords q))"
      using valid_row_length [OF va] by simp
  qed
  note wv = write_cells_value [OF rng, of r c]
  have A: "f h p enc ! r ! c = ?a ! r ! c" if "?a ! r ! c \<noteq> 0"
  proof -
    have "\<not> (\<exists>q \<in> set ?qs. row (coords q) = r \<and> col (coords q) = c)"
    proof
      assume "\<exists>q \<in> set ?qs. row (coords q) = r \<and> col (coords q) = c"
      then obtain q i where "(i, q) \<in> set ?props" "row (coords q) = r" "col (coords q) = c"
        unfolding S by blast
      then show False using encoded_propositions [OF assms(2,4), of i q] that by simp
    qed
    then show ?thesis using wv unfolding f_def by simp
  qed
  have B: "\<exists>i q. (i, q) \<in> set ?props \<and> i \<in> set results \<and>
         row (coords q) = r \<and> col (coords q) = c \<and> f h p enc ! r ! c = val q"
    if m: "is_model results (cnf enc)" and e: "?a ! r ! c = 0"
      and cand: "candidates ?a k r c \<noteq> []"
  proof -
    let ?ps = "dict_values ?props"
    obtain v where v: "v \<in> set (candidates ?a k r c)" using cand by (cases "candidates ?a k r c") auto
    have "c < length (?a ! r)" using assms(5,6) valid_row_length [OF va] unfolding n by simp
    then have "(r, c, v) \<in> set (candidate_list ?a k)"
      unfolding in_candidate_list using assms(5) e v unfolding n by simp
    then obtain i where "(i, \<lparr>coords = \<lparr>row = r, col = c, block = blk k r c\<rparr>, val = v, prop_id = i\<rparr>)
        \<in> set ?props"
      unfolding encoded_propositions_eq [OF assms(2-4)] using numbered_complete by blast
    then have x: "\<lparr>coords = \<lparr>row = r, col = c, block = blk k r c\<rparr>, val = v, prop_id = i\<rparr> \<in> set ?ps"
      unfolding dict_values_def by force
    have m': "is_model results (cell_clauses ?ps @ (row_clauses ?ps @ col_clauses ?ps @ block_clauses ?ps))"
      using m encode_cnf [OF assms(4)] by simp
    from model_cell_has_true [OF m' x]
    obtain q where q: "q \<in> set ?ps" "coords q = \<lparr>row = r, col = c, block = blk k r c\<rparr>"
      "prop_id q \<in> set results" by auto
    then obtain j where j: "(j, q) \<in> set ?props" unfolding dict_values_def by auto
    then have "prop_id q = j" using encoded_propositions [OF assms(2,4)] by blast
    then have "q \<in> set ?qs" unfolding S using j q(3) by blast
    then have "\<exists>q \<in> set ?qs. row (coords q) = r \<and> col (coords q) = c" using q(2) by force
    then obtain q' where "q' \<in> set ?qs" "row (coords q') = r" "col (coords q') = c"
      "foldl write_cell ?a ?qs ! r ! c = val q'"
      using wv by (auto split: if_splits)
    then show ?thesis unfolding S f_def by blast
  qed
  show ?thesis using A B by blast
qed

lemma valid_cell_le:
  assumes "valid_array a" "r < length a" "c < length a"
  shows "a ! r ! c \<le> length a"
proof -
  have "length (a ! r) = length a" by (rule valid_row_length [OF assms(1,2)])
  moreover have "\<forall>v \<in> set (a ! r). v \<le> length a"
    using assms(1,2) by (auto simp: valid_array_def list_all_iff)
  ultimately show ?thesis using assms(3) by simp
qed

lemma cell_in_enumerate:
  assumes "valid_array a" "r < length a" "c < length a"
  shows "((r, c), a ! r ! c) \<in> set (nd_enumerate a)"
  using assms valid_row_length [OF assms(1,2)] by (auto simp: set_nd_enumerate)

lemma decoded_cell_cases:
  assumes "valid_grid h p" "k * k = grid_size h p" "encode h p = Inr enc"
    and "is_model results (cnf enc)" "empty_cells_have_candidates (grid_array h p) k"
    and "r < grid_size h p" "c < grid_size h p"
  shows "(grid_array h p ! r ! c \<noteq> 0 \<and>
          foldl write_cell (grid_array h p) (selected (propositions enc) results) ! r ! c =
            grid_array h p ! r ! c) \<or>
         (grid_array h p ! r ! c = 0 \<and>
          (\<exists>i q. (i, q) \<in> set (propositions enc) \<and> i \<in> set results \<and>
             row (coords q) = r \<and> col (coords q) = c \<and>
             foldl write_cell (grid_array h p) (selected (propositions enc) results) ! r ! c =
               val q))"
proof (cases "grid_array h p ! r ! c = 0")
  case False
  then show ?thesis using decoded_cell [OF assms(1-3,6,7), of results] by blast
next
  case True
  let ?a = "grid_array h p"
  have va: "valid_array ?a" using assms(1) by (simp add: valid_grid_def)
  have "((r, c), ?a ! r ! c) \<in> set (nd_enumerate ?a)"
    using cell_in_enumerate [OF va] assms(6,7) by (simp add: grid_size_def)
  then have "candidates ?a k r c \<noteq> []"
    using assms(5) True unfolding empty_cells_have_candidates_def by force
  then show ?thesis using decoded_cell [OF assms(1-3,6,7), of results] assms(4) True by blast
qed

lemma decoded_range:
  assumes "valid_grid h p" "k * k = grid_size h p" "encode h p = Inr enc"
    and "is_model results (cnf enc)" "empty_cells_have_candidates (grid_array h p) k"
    and "r < grid_size h p" "c < grid_size h p"
  shows "foldl write_cell (grid_array h p) (selected (propositions enc) results) ! r ! c
           \<in> {1..grid_size h p}"
proof -
  let ?a = "grid_array h p"
  let ?f = "foldl write_cell ?a (selected (propositions enc) results)"
  have va: "valid_array ?a" using assms(1) by (simp add: valid_grid_def)
  from decoded_cell_cases [OF assms] show ?thesis
  proof (elim disjE conjE exE)
    assume "?a ! r ! c \<noteq> 0" "?f ! r ! c = ?a ! r ! c"
    then show ?thesis using valid_cell_le [OF va, of r c] assms(6,7) by (simp add: grid_size_def)
  next
    fix i q assume "(i, q) \<in> set (propositions enc)" "?f ! r ! c = val q"
    then show ?thesis using encoded_propositions [OF assms(1,3), of i q] by simp
  qed
qed

lemma prefilled_in_vals:
  assumes "valid_array a" "r < length a" "c < length a" "a ! r ! c \<noteq> 0"
  shows "a ! r ! c \<in> row_vals a r \<and> a ! r ! c \<in> col_vals a c \<and>
         a ! r ! c \<in> block_vals a k (blk k r c)"
  using cell_in_enumerate [OF assms(1-3)] assms(4)
  unfolding row_vals_eq col_vals_eq block_vals_eq by blast

lemma decoded_distinct:
  assumes "valid_grid h p" "k * k = grid_size h p" "encode h p = Inr enc"
    and "is_model results (cnf enc)" "empty_cells_have_candidates (grid_array h p) k"
    and "prefilled_consistent (grid_array h p) k"
    and "r1 < grid_size h p" "c1 < grid_size h p" "r2 < grid_size h p" "c2 < grid_size h p"
    and "(r1, c1) \<noteq> (r2, c2)"
    and "r1 = r2 \<or> c1 = c2 \<or> blk k r1 c1 = blk k r2 c2"
  shows "foldl write_cell (grid_array h p) (selected (propositions enc) results) ! r1 ! c1 \<noteq>
         foldl write_cell (grid_array h p) (selected (propositions enc) results) ! r2 ! c2"
proof -
  let ?a = "grid_array h p"
  let ?f = "foldl write_cell ?a (selected (propositions enc) results)"
  let ?ps = "dict_values (propositions enc)"
  have va: "valid_array ?a" using assms(1) by (simp add: valid_grid_def)
  have n: "grid_size h p = length ?a" by (simp add: grid_size_def)
  have m: "is_model results (cell_clauses ?ps @ row_clauses ?ps @ col_clauses ?ps @ block_clauses ?ps)"
    using assms(4) encode_cnf [OF assms(3)] by simp
  note d1 = decoded_cell_cases [OF assms(1-5) assms(7,8)]
  note d2 = decoded_cell_cases [OF assms(1-5) assms(9,10)]
  have new_old: "val q \<noteq> ?a ! r ! c"
    if "(i, q) \<in> set (propositions enc)" "r < length ?a" "c < length ?a" "?a ! r ! c \<noteq> 0"
      "row (coords q) = r \<or> col (coords q) = c \<or> blk k (row (coords q)) (col (coords q)) = blk k r c"
    for i q r c
  proof -
    have "(row (coords q), col (coords q), val q) \<in> set (candidate_list ?a k)"
      using encoded_proposition_detail [OF assms(1-3) that(1)] by simp
    then have "val q \<notin> row_vals ?a (row (coords q))" "val q \<notin> col_vals ?a (col (coords q))"
      "val q \<notin> block_vals ?a k (blk k (row (coords q)) (col (coords q)))"
      unfolding in_candidate_list in_candidates by simp_all
    then show ?thesis using prefilled_in_vals [OF va that(2-4), of k] that(5) by metis
  qed
  show ?thesis
  proof (cases "?a ! r1 ! c1 = 0")
    case False
    then have f1: "?f ! r1 ! c1 = ?a ! r1 ! c1" using d1 by auto
    show ?thesis
    proof (cases "?a ! r2 ! c2 = 0")
      case False
      then have f2: "?f ! r2 ! c2 = ?a ! r2 ! c2" using d2 by auto
      have x: "((r1, c1), ?a ! r1 ! c1) \<in> set (nd_enumerate ?a)"
        using cell_in_enumerate [OF va] assms(7,8) unfolding n by simp
      have y: "((r2, c2), ?a ! r2 ! c2) \<in> set (nd_enumerate ?a)"
        using cell_in_enumerate [OF va] assms(9,10) unfolding n by simp
      show ?thesis
      proof
        assume "?f ! r1 ! c1 = ?f ! r2 ! c2"
        then have "?a ! r1 ! c1 = ?a ! r2 ! c2" using f1 f2 by simp
        then have "r1 \<noteq> r2 \<and> c1 \<noteq> c2 \<and> blk k r1 c1 \<noteq> blk k r2 c2"
          using assms(6) [unfolded prefilled_consistent_def, rule_format, OF x y]
            \<open>?a ! r1 ! c1 \<noteq> 0\<close> assms(11) by simp
        then show False using assms(12) by blast
      qed
    next
      case True
      then obtain i q where q: "(i, q) \<in> set (propositions enc)" "row (coords q) = r2"
        "col (coords q) = c2" "?f ! r2 ! c2 = val q" using d2 by auto
      have "val q \<noteq> ?a ! r1 ! c1"
        using new_old [OF q(1), of r1 c1] assms(7,8,12) \<open>?a ! r1 ! c1 \<noteq> 0\<close> q(2,3)
        unfolding n by metis
      then show ?thesis using f1 q(4) by simp
    qed
  next
    case True
    then obtain i q where q: "(i, q) \<in> set (propositions enc)" "i \<in> set results"
      "row (coords q) = r1" "col (coords q) = c1" "?f ! r1 ! c1 = val q" using d1 by auto
    show ?thesis
    proof (cases "?a ! r2 ! c2 = 0")
      case False
      then have f2: "?f ! r2 ! c2 = ?a ! r2 ! c2" using d2 by auto
      have "val q \<noteq> ?a ! r2 ! c2"
        using new_old [OF q(1), of r2 c2] assms(9,10,12) False q(3,4)
        unfolding n by metis
      then show ?thesis using f2 q(5) by simp
    next
      case True
      then obtain i' q' where q': "(i', q') \<in> set (propositions enc)" "i' \<in> set results"
        "row (coords q') = r2" "col (coords q') = c2" "?f ! r2 ! c2 = val q'" using d2 by auto
      have ne: "q \<noteq> q'" using q(3,4) q'(3,4) assms(11) by auto
      have in_ps: "q \<in> set ?ps" "q' \<in> set ?ps"
        using q(1) q'(1) unfolding dict_values_def by force+
      have ids: "prop_id q \<in> set results" "prop_id q' \<in> set results"
        using encoded_proposition_detail [OF assms(1-3) q(1)]
          encoded_proposition_detail [OF assms(1-3) q'(1)] q(2) q'(2) by simp_all
      have b: "block (coords q) = blk k r1 c1" "block (coords q') = blk k r2 c2"
        using encoded_proposition_detail [OF assms(1-3) q(1)]
          encoded_proposition_detail [OF assms(1-3) q'(1)] q(3,4) q'(3,4) by simp_all
      from model_unique [OF m in_ps ne ids]
      have "val q' \<noteq> val q" using assms(12) q(3,4) q'(3,4) b by auto
      then show ?thesis using q(5) q'(5) by simp
    qed
  qed
qed

lemma count_list_distinct: "distinct xs \<Longrightarrow> count_list xs v = (if v \<in> set xs then 1 else 0)"
  by (induction xs) auto

lemma exactly_onceI:
  assumes "length xs = n" "distinct xs" "set xs \<subseteq> {1..n}"
  shows "exactly_once n xs"
proof -
  have "card (set xs) = card {1..n}" using assms(1,2) by (simp add: distinct_card)
  then have "set xs = {1..n}" using assms(3) by (intro card_subset_eq) simp_all
  then show ?thesis unfolding exactly_once_def using count_list_distinct [OF assms(2)] by simp
qed

lemma blk_decompose:
  assumes "0 < k" "c div k < k"
  shows "blk k r c div k = r div k \<and> blk k r c mod k = c div k"
  using assms by (simp add: blk_def)

lemma block_cells_card:
  assumes "k * k = n" "b < n"
  shows "card {(r, c). r < n \<and> c < n \<and> blk k r c = b} = n"
proof -
  have k: "0 < k" using assms by (cases k) auto
  have bk: "b div k < k" using assms by (simp add: less_mult_imp_div_less)
  let ?phi = "\<lambda>(i, j). ((b div k) * k + i, (b mod k) * k + j)"
  have "{(r, c). r < n \<and> c < n \<and> blk k r c = b} = ?phi ` ({..<k} \<times> {..<k})" (is "?B = _")
  proof (intro equalityI subsetI)
    fix x assume "x \<in> ?B"
    then obtain r c where x: "x = (r, c)" "r < n" "c < n" "blk k r c = b" by auto
    have ck: "c div k < k" using x(3) assms(1) by (simp add: less_mult_imp_div_less)
    have d: "b div k = r div k" "b mod k = c div k"
      using blk_decompose [OF k ck, of r] x(4) by simp_all
    have "r = (b div k) * k + r mod k" "c = (b mod k) * k + c mod k"
      unfolding d by simp_all
    moreover have "r mod k < k" "c mod k < k" using k by simp_all
    ultimately have "(r, c) = ?phi (r mod k, c mod k)" "(r mod k, c mod k) \<in> {..<k} \<times> {..<k}"
      by simp_all
    then show "x \<in> ?phi ` ({..<k} \<times> {..<k})" unfolding x(1) by (rule image_eqI)
  next
    fix x assume "x \<in> ?phi ` ({..<k} \<times> {..<k})"
    then obtain i j where ij: "i < k" "j < k" "x = ((b div k) * k + i, (b mod k) * k + j)"
      by auto
    have "(b div k) * k + i < (b div k) * k + k" using ij(1) by simp
    also have "\<dots> = Suc (b div k) * k" by simp
    also have "\<dots> \<le> k * k" using bk by (intro mult_le_mono1) simp
    finally have r: "(b div k) * k + i < n" using assms(1) by simp
    have "(b mod k) * k + j < (b mod k) * k + k" using ij(2) by simp
    also have "\<dots> = Suc (b mod k) * k" by simp
    also have "\<dots> \<le> k * k" using k by (intro mult_le_mono1) (simp add: Suc_leI)
    finally have c: "(b mod k) * k + j < n" using assms(1) by simp
    have "blk k ((b div k) * k + i) ((b mod k) * k + j) = b"
      using ij(1,2) k by (simp add: blk_def)
    then show "x \<in> ?B" using r c ij(3) by simp
  qed
  moreover have "inj_on ?phi ({..<k} \<times> {..<k})" by (auto simp: inj_on_def)
  ultimately have "card ?B = card ({..<k} \<times> {..<k})" by (simp add: card_image)
  then show ?thesis using assms(1) by simp
qed

lemma sorted_wrt_irrefl_distinct:
  assumes "\<And>x. \<not> R x x" "sorted_wrt R xs"
  shows "distinct xs"
  using assms(2) by (induction xs) (use assms(1) in auto)

lemma nd_enumerate_distinct: "distinct (map fst (nd_enumerate a))"
proof -
  have "sorted_wrt (\<lambda>x y. fst x < fst y \<or> (fst x = fst y \<and> snd x < snd y))
      (map fst (nd_enumerate a))"
    using nd_enumerate_sorted [of a] by (simp add: sorted_wrt_map)
  then show ?thesis by (rule sorted_wrt_irrefl_distinct [rotated]) simp
qed

lemma row_exactly_once:
  assumes "length f = n" "\<forall>r<n. length (f ! r) = n"
    and "\<forall>r<n. \<forall>c<n. f ! r ! c \<in> {1..n}"
    and "\<And>r1 c1 r2 c2. r1 < n \<Longrightarrow> c1 < n \<Longrightarrow> r2 < n \<Longrightarrow> c2 < n \<Longrightarrow> (r1, c1) \<noteq> (r2, c2) \<Longrightarrow>
          r1 = r2 \<or> c1 = c2 \<or> blk k r1 c1 = blk k r2 c2 \<Longrightarrow> f ! r1 ! c1 \<noteq> f ! r2 ! c2"
    and "i < n"
  shows "exactly_once n (f ! i)"
proof (rule exactly_onceI)
  show "length (f ! i) = n" using assms(2,5) by simp
  show "distinct (f ! i)"
    unfolding distinct_conv_nth using assms(2,4,5) by auto
  show "set (f ! i) \<subseteq> {1..n}"
    using assms(2,3,5) by (auto simp: in_set_conv_nth)
qed

lemma column_exactly_once:
  assumes "length f = n" "\<forall>r<n. length (f ! r) = n"
    and "\<forall>r<n. \<forall>c<n. f ! r ! c \<in> {1..n}"
    and "\<And>r1 c1 r2 c2. r1 < n \<Longrightarrow> c1 < n \<Longrightarrow> r2 < n \<Longrightarrow> c2 < n \<Longrightarrow> (r1, c1) \<noteq> (r2, c2) \<Longrightarrow>
          r1 = r2 \<or> c1 = c2 \<or> blk k r1 c1 = blk k r2 c2 \<Longrightarrow> f ! r1 ! c1 \<noteq> f ! r2 ! c2"
    and "i < n"
  shows "exactly_once n (column_of f i)"
proof (rule exactly_onceI)
  show "length (column_of f i) = n" using assms(1) by (simp add: column_of_def)
  show "distinct (column_of f i)"
    unfolding distinct_conv_nth column_of_def using assms(1,4,5) by auto
  show "set (column_of f i) \<subseteq> {1..n}"
    unfolding column_of_def using assms(1,3,5) by (auto simp: in_set_conv_nth)
qed

lemma block_exactly_once:
  assumes "k * k = n" "length f = n" "\<forall>r<n. length (f ! r) = n"
    and "\<forall>r<n. \<forall>c<n. f ! r ! c \<in> {1..n}"
    and "\<And>r1 c1 r2 c2. r1 < n \<Longrightarrow> c1 < n \<Longrightarrow> r2 < n \<Longrightarrow> c2 < n \<Longrightarrow> (r1, c1) \<noteq> (r2, c2) \<Longrightarrow>
          r1 = r2 \<or> c1 = c2 \<or> blk k r1 c1 = blk k r2 c2 \<Longrightarrow> f ! r1 ! c1 \<noteq> f ! r2 ! c2"
    and "b < n"
  shows "exactly_once n (block_of f k b)"
proof (rule exactly_onceI)
  let ?P = "\<lambda>((r, c), v). blk k r c = b"
  let ?xs = "filter ?P (nd_enumerate f)"
  let ?B = "{(r, c). r < n \<and> c < n \<and> blk k r c = b}"
  have cells: "set (nd_enumerate f) = {((r, c), f ! r ! c) | r c. r < n \<and> c < n}"
    unfolding set_nd_enumerate using assms(2,3) by auto
  have sx: "set ?xs = (\<lambda>(r, c). ((r, c), f ! r ! c)) ` ?B"
    unfolding set_filter cells by auto
  have dx: "distinct ?xs"
    using nd_enumerate_distinct [of f] by (intro distinct_filter) (simp add: distinct_map)
  have "card (set ?xs) = card ?B"
    unfolding sx by (intro card_image) (auto simp: inj_on_def)
  then have "length ?xs = n"
    using block_cells_card [OF assms(1,6)] distinct_card [OF dx] by simp
  then show "length (block_of f k b) = n" by (simp add: block_of_def)
  have "inj_on snd (set ?xs)"
  proof (rule inj_onI)
    fix x y assume x: "x \<in> set ?xs" and y: "y \<in> set ?xs" and e: "snd x = snd y"
    from x obtain r1 c1 where x': "x = ((r1, c1), f ! r1 ! c1)" "r1 < n" "c1 < n" "blk k r1 c1 = b"
      unfolding sx by auto
    from y obtain r2 c2 where y': "y = ((r2, c2), f ! r2 ! c2)" "r2 < n" "c2 < n" "blk k r2 c2 = b"
      unfolding sx by auto
    have "(r1, c1) = (r2, c2)"
    proof (rule ccontr)
      assume "(r1, c1) \<noteq> (r2, c2)"
      then have "f ! r1 ! c1 \<noteq> f ! r2 ! c2"
        using assms(5) [OF x'(2,3) y'(2,3)] x'(4) y'(4) by simp
      then show False using e x'(1) y'(1) by simp
    qed
    then show "x = y" using x'(1) y'(1) by simp
  qed
  then show "distinct (block_of f k b)"
    unfolding block_of_def using dx by (simp add: distinct_map)
  show "set (block_of f k b) \<subseteq> {1..n}"
    unfolding block_of_def set_map sx using assms(4) by auto
qed

lemma solvedI:
  assumes "k * k = n" "length f = n" "\<forall>r<n. length (f ! r) = n"
    and "\<forall>r<n. \<forall>c<n. f ! r ! c \<in> {1..n}"
    and "\<And>r1 c1 r2 c2. r1 < n \<Longrightarrow> c1 < n \<Longrightarrow> r2 < n \<Longrightarrow> c2 < n \<Longrightarrow> (r1, c1) \<noteq> (r2, c2) \<Longrightarrow>
          r1 = r2 \<or> c1 = c2 \<or> blk k r1 c1 = blk k r2 c2 \<Longrightarrow> f ! r1 ! c1 \<noteq> f ! r2 ! c2"
  shows "solved f k"
  unfolding solved_def assms(2)
  using row_exactly_once [OF assms(2-5)] column_exactly_once [OF assms(2-5)]
    block_exactly_once [OF assms]
  by simp

text \<open>
  Claim C1, as stated, fails. On the valid 4 x 4 grid filled with ones the dictionary and
  the formula are empty, so every result list satisfies the formula, and \<open>decode\<close> returns
  the grid of ones, which is not solved. The same happens when the filled cells are
  consistent but an empty cell has no candidate: in the second grid the cells \<open>(0, 0)\<close>
  and \<open>(2, 1)\<close> are empty, no value is repeated in a row, column or block, the formula
  is empty again, and the returned grid still has its two empty cells.
\<close>

theorem soundness_counterexample:
  "valid_grid [[[1, 1, 1, 1], [1, 1, 1, 1], [1, 1, 1, 1], [1, 1, 1, 1]]] \<lparr>array = 0\<rparr> \<and>
   encode [[[1, 1, 1, 1], [1, 1, 1, 1], [1, 1, 1, 1], [1, 1, 1, 1]]] \<lparr>array = 0\<rparr> =
     Inr \<lparr>cnf = [], propositions = [], puzzle = \<lparr>array = 0\<rparr>\<rparr> \<and>
   is_model [] [] \<and>
   decode [[[1, 1, 1, 1], [1, 1, 1, 1], [1, 1, 1, 1], [1, 1, 1, 1]]]
     \<lparr>cnf = [], propositions = [], puzzle = \<lparr>array = 0\<rparr>\<rparr> [] =
     Inr (\<lparr>array = 1\<rparr>,
          [[[1, 1, 1, 1], [1, 1, 1, 1], [1, 1, 1, 1], [1, 1, 1, 1]],
           [[1, 1, 1, 1], [1, 1, 1, 1], [1, 1, 1, 1], [1, 1, 1, 1]]]) \<and>
   \<not> solved [[1, 1, 1, 1], [1, 1, 1, 1], [1, 1, 1, 1], [1, 1, 1, 1]] 2 \<and>
   valid_grid [[[0, 1, 3, 4], [3, 4, 1, 2], [2, 0, 4, 3], [4, 3, 2, 1]]] \<lparr>array = 0\<rparr> \<and>
   prefilled_consistent [[0, 1, 3, 4], [3, 4, 1, 2], [2, 0, 4, 3], [4, 3, 2, 1]] 2 \<and>
   encode [[[0, 1, 3, 4], [3, 4, 1, 2], [2, 0, 4, 3], [4, 3, 2, 1]]] \<lparr>array = 0\<rparr> =
     Inr \<lparr>cnf = [], propositions = [], puzzle = \<lparr>array = 0\<rparr>\<rparr> \<and>
   decode [[[0, 1, 3, 4], [3, 4, 1, 2], [2, 0, 4, 3], [4, 3, 2, 1]]]
     \<lparr>cnf = [], propositions = [], puzzle = \<lparr>array = 0\<rparr>\<rparr> [] =
     Inr (\<lparr>array = 1\<rparr>,
          [[[0, 1, 3, 4], [3, 4, 1, 2], [2, 0, 4, 3], [4, 3, 2, 1]],
           [[0, 1, 3, 4], [3, 4, 1, 2], [2, 0, 4, 3], [4, 3, 2, 1]]]) \<and>
   \<not> solved [[0, 1, 3, 4], [3, 4, 1, 2], [2, 0, 4, 3], [4, 3, 2, 1]] 2"
  by code_simp

text \<open>
  Claim C1, amended. For a valid grid with block size \<open>k\<close> and every result list,
  \<open>decode\<close> on the grid's encoding returns a grid that agrees with the original on every
  non-empty cell. If moreover the result list satisfies the compiled formula, the filled
  cells of the original are consistent (no value twice in a row, column or block) and
  every empty cell has at least one candidate, then every row, column and block of the
  returned grid holds each value of \<open>1..n\<close> exactly once.
\<close>

theorem solve_decode_sound:
  assumes "valid_grid h p" and "k * k = grid_size h p" and "encode h p = Inr enc"
  shows "\<exists>g h'. decode h enc results = Inr (g, h') \<and>
     (\<forall>r<grid_size h p. \<forall>c<grid_size h p.
        grid_array h p ! r ! c \<noteq> 0 \<longrightarrow> grid_array h' g ! r ! c = grid_array h p ! r ! c) \<and>
     (is_model results (cnf enc) \<and> prefilled_consistent (grid_array h p) k \<and>
      empty_cells_have_candidates (grid_array h p) k \<longrightarrow>
        solved (grid_array h' g) k)"
proof -
  let ?a = "grid_array h p"
  let ?n = "grid_size h p"
  let ?f = "foldl write_cell ?a (selected (propositions enc) results)"
  let ?g = "\<lparr>array = length h\<rparr>"
  let ?h' = "h @ [?f]"
  have va: "valid_array ?a" using assms(1) by (simp add: valid_grid_def)
  have dec: "decode h enc results = Inr (?g, ?h')" by (rule decode_encoded [OF assms(1,3)])
  have ga: "grid_array ?h' ?g = ?f" by (simp add: grid_array_def)
  have agree: "\<forall>r<?n. \<forall>c<?n. ?a ! r ! c \<noteq> 0 \<longrightarrow> ?f ! r ! c = ?a ! r ! c"
    using decoded_cell [OF assms, of _ _ results] by blast
  have sol: "solved ?f k"
    if m: "is_model results (cnf enc)" and pc: "prefilled_consistent ?a k"
      and ec: "empty_cells_have_candidates ?a k"
  proof (rule solvedI [OF assms(2)])
    show "length ?f = ?n" by (simp add: write_cells_shape grid_size_def)
    show "\<forall>r<?n. length (?f ! r) = ?n"
      using valid_row_length [OF va] by (simp add: write_cells_shape grid_size_def)
    show "\<forall>r<?n. \<forall>c<?n. ?f ! r ! c \<in> {1..?n}"
      using decoded_range [OF assms m ec] by blast
  next
    fix r1 c1 r2 c2
    assume "r1 < ?n" "c1 < ?n" "r2 < ?n" "c2 < ?n" "(r1, c1) \<noteq> (r2, c2)"
      "r1 = r2 \<or> c1 = c2 \<or> blk k r1 c1 = blk k r2 c2"
    then show "?f ! r1 ! c1 \<noteq> ?f ! r2 ! c2"
      by (rule decoded_distinct [OF assms m ec pc])
  qed
  show ?thesis
    unfolding dec
    by (intro exI [of _ ?g] exI [of _ ?h'] conjI refl) (use agree sol ga in simp_all)
qed

theorem solve_decode_sound_witness:
  "valid_grid [[[0, 0, 3, 4], [3, 4, 1, 2], [0, 0, 4, 3], [4, 3, 2, 1]]] \<lparr>array = 0\<rparr> \<and>
   2 * 2 = grid_size [[[0, 0, 3, 4], [3, 4, 1, 2], [0, 0, 4, 3], [4, 3, 2, 1]]] \<lparr>array = 0\<rparr> \<and>
   prefilled_consistent [[0, 0, 3, 4], [3, 4, 1, 2], [0, 0, 4, 3], [4, 3, 2, 1]] 2 \<and>
   empty_cells_have_candidates [[0, 0, 3, 4], [3, 4, 1, 2], [0, 0, 4, 3], [4, 3, 2, 1]] 2 \<and>
   (\<exists>enc. encode [[[0, 0, 3, 4], [3, 4, 1, 2], [0, 0, 4, 3], [4, 3, 2, 1]]] \<lparr>array = 0\<rparr> = Inr enc \<and>
      is_model [1, - 2, - 3, 4, - 5, 6, 7, - 8] (cnf enc) \<and>
      (\<exists>g h'. decode [[[0, 0, 3, 4], [3, 4, 1, 2], [0, 0, 4, 3], [4, 3, 2, 1]]] enc
                 [1, - 2, - 3, 4, - 5, 6, 7, - 8] = Inr (g, h') \<and>
               solved (grid_array h' g) 2))"
proof -
  let ?h = "[[[0, 0, 3, 4], [3, 4, 1, 2], [0, 0, 4, 3], [4, 3, 2, 1::nat]]]"
  let ?p = "\<lparr>array = 0\<rparr>"
  let ?enc = "projr (encode ?h ?p)"
  let ?R = "[1, - 2, - 3, 4, - 5, 6, 7, - 8 :: int]"
  have v: "valid_grid ?h ?p" by code_simp
  have k: "2 * 2 = grid_size ?h ?p" by code_simp
  have e: "encode ?h ?p = Inr ?enc" by code_simp
  have m: "is_model ?R (cnf ?enc)" by code_simp
  have pc: "prefilled_consistent (grid_array ?h ?p) 2" by code_simp
  have ec: "empty_cells_have_candidates (grid_array ?h ?p) 2" by code_simp
  have a: "grid_array ?h ?p = [[0, 0, 3, 4], [3, 4, 1, 2], [0, 0, 4, 3], [4, 3, 2, 1]]"
    by (simp add: grid_array_def)
  from solve_decode_sound [OF v k e, of ?R] m pc ec
  have "\<exists>g h'. decode ?h ?enc ?R = Inr (g, h') \<and> solved (grid_array h' g) 2"
    by blast
  then show ?thesis using v k e m pc ec unfolding a by blast
qed

section \<open>Text round trip\<close>























end
